theory Spec2Isabelle
  imports Complex_Main "HOL-Library.Log_Nat"
begin

section \<open>The background script: data crossing the network\<close>

text \<open>
  A request address is the base address together with the query parameters that
  \<^verbatim>\<open>url.searchParams.set\<close> has put on it, in order.
\<close>

type_synonym url = "string \<times> (string \<times> string) list"

text \<open>
  The parsed response of the comment source, typed after the shape the two walkers read:
  \<^verbatim>\<open>data.items\<close>, \<^verbatim>\<open>data.nextPageToken\<close> and \<^verbatim>\<open>data.error.message\<close>.
  An absent or falsy string field is the empty string, an absent list is empty, an absent
  object is \<open>None\<close>. A thread item keeps its comment under
  \<^verbatim>\<open>snippet.topLevelComment.snippet\<close>, a reply item directly under \<^verbatim>\<open>snippet\<close>.
\<close>

record comment_snippet =
  textDisplay :: string
  publishedAt :: string

record top_level_comment =
  tlc_id :: string
  tlc_snippet :: "comment_snippet option"

record item_snippet =
  own_comment :: comment_snippet
  topLevelComment :: "top_level_comment option"
  totalReplyCount :: int

record item =
  item_id :: string
  snippet :: "item_snippet option"

record payload =
  error_message :: string
  items :: "item list"
  nextPageToken :: string

record response =
  ok :: bool
  status :: nat
  statusText :: string
  body :: "string option"

text \<open>The record both walkers push: sentiment and strength are \<^verbatim>\<open>null\<close>, the topic is fixed.\<close>

record fetched =
  f_id :: string
  f_text :: string
  f_timestamp :: "rat option"
  f_sentiment :: "string option"
  f_sentimentStrength :: "string option"
  f_topic :: string
  f_emojis :: "string list"

text \<open>
  Errors are values. Each constructor stands for one message template of the source and
  carries exactly the values the template interpolates; the last three are the literal
  messages the listener answers with when a precondition fails.
\<close>

datatype error =
    NetworkError string
  | HttpError nat string
  | ParseError
  | BodyError
  | SyntaxError
  | Exhausted int error
  | ExhaustedPlain int
  | UnexpectedEnd
  | TypeError
  | WalkFailed string error
  | AnalysisError nat string
  | NoActiveTab
  | NoVideoId
  | NoApiKey

text \<open>What the caller of the message listener receives.\<close>

datatype reply = Success nat | Failure error

text \<open>
  Everything observable that the script does, in the order it does it. Calls of
  \<^verbatim>\<open>logInfo\<close> are left out: they only write to the console and cannot throw.
\<close>

datatype event =
    Fetch url
  | Sleep int
  | Warn string
  | Err string
  | Progress nat
  | Analyze nat
  | StorageSet
  | UpdateUI "error option"
  | Respond reply

record st =
  clock :: nat
  trace :: "event list"

text \<open>
  The world outside the script. \<open>fetch e n u\<close> is what the network answers to the
  \<open>n\<close>-th request the script issues when that request goes to \<open>u\<close>: a rejection with its
  message, or a response. The built-in functions of the platform are parameters too:
  \<open>JSON_parse\<close> (\<open>None\<close> when it throws), \<open>Date_seconds\<close> for
  \<^verbatim>\<open>new Date(s).getTime() / 1000\<close> (\<open>None\<close> for NaN), \<open>match_emojis\<close> for the
  pictograph scan, \<open>URL_v\<close> for \<^verbatim>\<open>new URL(s).searchParams.get("v")\<close> (\<open>None\<close> when the
  constructor throws, \<open>Some []\<close> when the parameter is absent). \<open>active_tab\<close> is the address
  of the first tab \<^verbatim>\<open>chrome.tabs.query\<close> reports (\<open>None\<close> without a tab or an address),
  \<open>stored_key\<close> the outcome of reading \<^verbatim>\<open>ytApiKey\<close> (\<open>None\<close> when the read rejects, the empty
  string for no value), \<open>analyze\<close> the outcome of the analysis request for a batch
  (\<open>Inl\<close> its failure), \<open>storage_ok\<close> whether saving the results succeeds.
  The \<open>clock\<close> of the state counts the requests sent to the comment source.
\<close>

record env =
  fetch :: "nat \<Rightarrow> url \<Rightarrow> string + response"
  JSON_parse :: "string \<Rightarrow> payload option"
  Date_seconds :: "string \<Rightarrow> rat option"
  match_emojis :: "string \<Rightarrow> string list"
  URL_v :: "string \<Rightarrow> string option"
  active_tab :: "string option"
  stored_key :: "string option"
  analyze :: "fetched list \<Rightarrow> error + unit"
  storage_ok :: bool

definition emit :: "event \<Rightarrow> st \<Rightarrow> st" where
  "emit ev s = s\<lparr>trace := trace s @ [ev]\<rparr>"

section \<open>Resilient fetcher\<close>

text \<open>
  One pass through the body of the \<^verbatim>\<open>for\<close> loop of \<^verbatim>\<open>fetchWithRetry\<close> in the background
  script, up to the \<^verbatim>\<open>return\<close> or the throw that its \<^verbatim>\<open>catch\<close> receives. In the branch
  for a status that is not a success, both the parse failure and the thrown service
  message are caught by the inner \<^verbatim>\<open>catch (jsonErr)\<close>, which throws the HTTP error; a body
  that parses and has no service message falls through to the success path.
\<close>

definition attempt :: "env \<Rightarrow> url \<Rightarrow> st \<Rightarrow> (error + payload) \<times> st" where
  "attempt e u s =
    (let s1 = emit (Fetch u) (s\<lparr>clock := clock s + 1\<rparr>) in
     case fetch e (clock s) u of
       Inl msg \<Rightarrow> (Inl (NetworkError msg), s1)
     | Inr resp \<Rightarrow>
        (let text = (case body resp of None \<Rightarrow> [] | Some t \<Rightarrow> t);
             src = (if text = [] then ''{}'' else text)
         in if \<not> ok resp then
              (let snip = take 300 text;
                   s2 = emit (Warn ''HTTP error on attempt'') s1;
                   http = HttpError (status resp) (if snip = [] then statusText resp else snip)
               in case JSON_parse e src of
                    None \<Rightarrow> (Inl http, s2)
                  | Some apiError \<Rightarrow>
                      if error_message apiError \<noteq> [] then (Inl http, s2)
                      else (case JSON_parse e src of
                              None \<Rightarrow> (Inl ParseError, s2)
                            | Some json \<Rightarrow> (Inr json, s2)))
            else (case JSON_parse e src of
                    None \<Rightarrow> (Inl ParseError, s1)
                  | Some json \<Rightarrow> (Inr json, s1))))"

text \<open>
  The loop \<^verbatim>\<open>for (let i = 0; i < retries; i++)\<close>. After a failed attempt that is not the
  last the script waits \<^verbatim>\<open>delay * (1 + i)\<close>; after the last it throws the exhaustion error
  built from \<^verbatim>\<open>retries\<close> and the message of that attempt's failure. The statement after the
  loop is reached only when the body never ran.
\<close>

function fetchWithRetry_loop ::
  "env \<Rightarrow> url \<Rightarrow> int \<Rightarrow> int \<Rightarrow> int \<Rightarrow> st \<Rightarrow> (error + payload) \<times> st" where
  "fetchWithRetry_loop e u retries delay i s =
    (if i < retries then
       (case attempt e u s of
          (Inr json, s1) \<Rightarrow> (Inr json, s1)
        | (Inl err, s1) \<Rightarrow>
            (let s2 = emit (Warn ''Attempt failed'') s1
             in if i < retries - 1
                then fetchWithRetry_loop e u retries delay (i + 1)
                       (emit (Sleep (delay * (1 + i))) s2)
                else (Inl (Exhausted retries err),
                      emit (Err ''fetchWithRetry exhausted all attempts'') s2)))
     else (Inl UnexpectedEnd, s))"
  by pat_completeness auto
termination
  by (relation "measure (\<lambda>(e, u, retries, delay, i, s). nat (retries - i))") auto

definition fetchWithRetry :: "env \<Rightarrow> url \<Rightarrow> int \<Rightarrow> int \<Rightarrow> st \<Rightarrow> (error + payload) \<times> st" where
  "fetchWithRetry e u retries delay s = fetchWithRetry_loop e u retries delay 0 s"

text \<open>
  The older copy of the fetcher kept beside the popup code. Reading the body may reject,
  the body is parsed as it is, every wait is \<^verbatim>\<open>delay\<close>, a failed last attempt is only
  logged, and the error thrown after the loop carries \<^verbatim>\<open>retries\<close> alone.
\<close>

definition attempt_old :: "env \<Rightarrow> url \<Rightarrow> st \<Rightarrow> (error + payload) \<times> st" where
  "attempt_old e u s =
    (let s1 = emit (Fetch u) (s\<lparr>clock := clock s + 1\<rparr>) in
     case fetch e (clock s) u of
       Inl msg \<Rightarrow> (Inl (NetworkError msg), s1)
     | Inr resp \<Rightarrow>
        (case body resp of
           None \<Rightarrow> (Inl BodyError, s1)
         | Some text \<Rightarrow>
            if \<not> ok resp then
              (let snip = take 300 text;
                   s2 = emit (Warn ''HTTP error on attempt'') s1;
                   http = HttpError (status resp) snip
               in case JSON_parse e text of
                    None \<Rightarrow> (Inl http, s2)
                  | Some apiError \<Rightarrow>
                      if error_message apiError \<noteq> [] then (Inl http, s2)
                      else (case JSON_parse e text of
                              None \<Rightarrow> (Inl SyntaxError, s2)
                            | Some json \<Rightarrow> (Inr json, s2)))
            else (case JSON_parse e text of
                    None \<Rightarrow> (Inl SyntaxError, s1)
                  | Some json \<Rightarrow> (Inr json, s1))))"

function fetchWithRetry_old_loop ::
  "env \<Rightarrow> url \<Rightarrow> int \<Rightarrow> int \<Rightarrow> int \<Rightarrow> st \<Rightarrow> (error + payload) \<times> st" where
  "fetchWithRetry_old_loop e u retries delay i s =
    (if i < retries then
       (case attempt_old e u s of
          (Inr json, s1) \<Rightarrow> (Inr json, s1)
        | (Inl err, s1) \<Rightarrow>
            (let s2 = emit (Warn ''Attempt failed'') s1
             in fetchWithRetry_old_loop e u retries delay (i + 1)
                  (if i < retries - 1 then emit (Sleep delay) s2
                   else emit (Err ''FetchWithRetry failed all attempts'') s2)))
     else (Inl (ExhaustedPlain retries), s))"
  by pat_completeness auto
termination
  by (relation "measure (\<lambda>(e, u, retries, delay, i, s). nat (retries - i))") auto

definition fetchWithRetry_old ::
  "env \<Rightarrow> url \<Rightarrow> int \<Rightarrow> int \<Rightarrow> st \<Rightarrow> (error + payload) \<times> st" where
  "fetchWithRetry_old e u retries delay s = fetchWithRetry_old_loop e u retries delay 0 s"

section \<open>Page walker\<close>

definition comment_record :: "env \<Rightarrow> string \<Rightarrow> comment_snippet \<Rightarrow> fetched" where
  "comment_record e cid sn =
    \<lparr>f_id = cid, f_text = textDisplay sn, f_timestamp = Date_seconds e (publishedAt sn),
     f_sentiment = None, f_sentimentStrength = None, f_topic = ''General'',
     f_emojis = match_emojis e (textDisplay sn)\<rparr>"

definition page_param :: "string \<Rightarrow> (string \<times> string) list" where
  "page_param pageToken = (if pageToken \<noteq> [] then [(''pageToken'', pageToken)] else [])"

definition replies_url :: "string \<Rightarrow> string \<Rightarrow> string \<Rightarrow> url" where
  "replies_url parentId apiKey pageToken =
    (''https://www.googleapis.com/youtube/v3/comments'',
     [(''part'', ''snippet''), (''parentId'', parentId), (''key'', apiKey),
      (''maxResults'', ''100'')] @ page_param pageToken)"

definition threads_url :: "string \<Rightarrow> string \<Rightarrow> string \<Rightarrow> url" where
  "threads_url videoId apiKey pageToken =
    (''https://www.googleapis.com/youtube/v3/commentThreads'',
     [(''part'', ''snippet''), (''videoId'', videoId), (''key'', apiKey),
      (''maxResults'', ''100'')] @ page_param pageToken)"

text \<open>The \<^verbatim>\<open>forEach\<close> over one page of replies: an item without a snippet is skipped.\<close>

definition reply_records :: "env \<Rightarrow> item list \<Rightarrow> fetched list" where
  "reply_records e its =
    concat (map (\<lambda>it. case snippet it of
                         None \<Rightarrow> []
                       | Some sn \<Rightarrow> [comment_record e (item_id it) (own_comment sn)]) its)"

text \<open>
  The \<^verbatim>\<open>do ... while (pageToken)\<close> loop of \<^verbatim>\<open>fetchReplies\<close>, inside its \<^verbatim>\<open>try\<close>. The result
  is the error the \<^verbatim>\<open>catch\<close> receives, if any, with the replies pushed so far. \<open>None\<close>
  means that the loop never ends.
\<close>

partial_function (option) fetchReplies_loop ::
  "env \<Rightarrow> string \<Rightarrow> string \<Rightarrow> string \<Rightarrow> fetched list \<Rightarrow> st
     \<Rightarrow> (error option \<times> fetched list \<times> st) option" where
  "fetchReplies_loop e parentId apiKey pageToken replies s =
    (case fetchWithRetry e (replies_url parentId apiKey pageToken) 3 1000 s of
       (Inl err, s1) \<Rightarrow> Some (Some err, replies, s1)
     | (Inr data, s1) \<Rightarrow>
         if nextPageToken data \<noteq> []
         then fetchReplies_loop e parentId apiKey (nextPageToken data)
                (replies @ reply_records e (items data)) s1
         else Some (None, replies @ reply_records e (items data), s1))"

declare fetchReplies_loop.simps [code]

text \<open>
  \<^verbatim>\<open>fetchReplies\<close>: the \<^verbatim>\<open>catch\<close> logs the error and the function returns the replies
  collected before it.
\<close>

definition fetchReplies :: "env \<Rightarrow> string \<Rightarrow> string \<Rightarrow> st \<Rightarrow> (fetched list \<times> st) option" where
  "fetchReplies e parentId apiKey s =
    (case fetchReplies_loop e parentId apiKey [] [] s of
       None \<Rightarrow> None
     | Some (None, replies, s1) \<Rightarrow> Some (replies, s1)
     | Some (Some err, replies, s1) \<Rightarrow> Some (replies, emit (Err ''Error fetching replies'') s1))"

text \<open>
  The record pushed for a thread item, when \<^verbatim>\<open>item?.snippet?.topLevelComment?.snippet\<close> is
  there.
\<close>

definition push_top :: "env \<Rightarrow> item_snippet \<Rightarrow> fetched list \<Rightarrow> fetched list" where
  "push_top e isn comments =
    (case topLevelComment isn of
       None \<Rightarrow> comments
     | Some tlc \<Rightarrow>
        (case tlc_snippet tlc of
           None \<Rightarrow> comments
         | Some sn \<Rightarrow> comments @ [comment_record e (tlc_id tlc) sn]))"

text \<open>
  The \<^verbatim>\<open>for ... of\<close> over the items of one page of threads. An item with a positive reply
  count and no top-level comment makes \<^verbatim>\<open>item.snippet.topLevelComment.id\<close> throw, which
  ends the walk. \<^verbatim>\<open>fetchReplies\<close> never rejects, so the \<^verbatim>\<open>.catch\<close> put on its call has no
  branch here.
\<close>

fun process_items ::
  "env \<Rightarrow> string \<Rightarrow> item list \<Rightarrow> fetched list \<Rightarrow> st
     \<Rightarrow> (error option \<times> fetched list \<times> st) option" where
  "process_items e apiKey [] comments s = Some (None, comments, s)"
| "process_items e apiKey (it # rest) comments s =
    (case snippet it of
       None \<Rightarrow> process_items e apiKey rest comments s
     | Some isn \<Rightarrow>
        (let comments1 = push_top e isn comments
         in if totalReplyCount isn > 0 then
              (case topLevelComment isn of
                 None \<Rightarrow> Some (Some TypeError, comments1, s)
               | Some tlc \<Rightarrow>
                  (case fetchReplies e (tlc_id tlc) apiKey s of
                     None \<Rightarrow> None
                   | Some (replies, s1) \<Rightarrow>
                       process_items e apiKey rest (comments1 @ replies) s1))
            else process_items e apiKey rest comments1 s))"

text \<open>
  The \<^verbatim>\<open>do ... while (pageToken)\<close> loop of \<^verbatim>\<open>fetchAllComments\<close>, inside its \<^verbatim>\<open>try\<close>: after
  each page a progress message with the number of records so far and a pause of 200.
\<close>

partial_function (option) fetchAllComments_loop ::
  "env \<Rightarrow> string \<Rightarrow> string \<Rightarrow> string \<Rightarrow> fetched list \<Rightarrow> st
     \<Rightarrow> ((error + fetched list) \<times> st) option" where
  "fetchAllComments_loop e videoId apiKey pageToken comments s =
    (case fetchWithRetry e (threads_url videoId apiKey pageToken) 3 1000 s of
       (Inl err, s1) \<Rightarrow> Some (Inl err, s1)
     | (Inr data, s1) \<Rightarrow>
        (case process_items e apiKey (items data) comments s1 of
           None \<Rightarrow> None
         | Some (Some err, comments1, s2) \<Rightarrow> Some (Inl err, s2)
         | Some (None, comments1, s2) \<Rightarrow>
            (let s3 = emit (Sleep 200) (emit (Progress (length comments1)) s2)
             in if nextPageToken data \<noteq> []
                then fetchAllComments_loop e videoId apiKey (nextPageToken data) comments1 s3
                else Some (Inr comments1, s3))))"

declare fetchAllComments_loop.simps [code]

text \<open>
  \<^verbatim>\<open>fetchAllComments\<close>: the \<^verbatim>\<open>catch\<close> logs the error and throws it again, wrapped with
  the video identifier.
\<close>

definition fetchAllComments ::
  "env \<Rightarrow> string \<Rightarrow> string \<Rightarrow> st \<Rightarrow> ((error + fetched list) \<times> st) option" where
  "fetchAllComments e videoId apiKey s =
    (case fetchAllComments_loop e videoId apiKey [] [] s of
       None \<Rightarrow> None
     | Some (Inr comments, s1) \<Rightarrow> Some (Inr comments, s1)
     | Some (Inl err, s1) \<Rightarrow>
         Some (Inl (WalkFailed videoId err), emit (Err ''Error fetching all comments'') s1))"

section \<open>Ingestion coordinator\<close>

record request =
  action :: string
  videoId :: string

text \<open>
  \<^verbatim>\<open>sendAllComments\<close> catches every failure itself and tells the popup through
  \<^verbatim>\<open>updateUI\<close>; a failure to save the results is only logged.
\<close>

definition sendAllComments :: "env \<Rightarrow> fetched list \<Rightarrow> st \<Rightarrow> st" where
  "sendAllComments e comments s =
    (let s1 = emit (Analyze (length comments)) s in
     case analyze e comments of
       Inl err \<Rightarrow>
         emit (UpdateUI (Some err)) (emit (Err ''Error sending comments to /analyze API'') s1)
     | Inr _ \<Rightarrow>
         emit (UpdateUI None)
           (if storage_ok e then emit StorageSet s1
            else emit (Warn ''Failed to save analysis to storage'') s1))"

text \<open>
  The first part of the listener's task: the video identifier of the request or of the
  active tab, then the stored key. \<open>Inl\<close> is the answer sent when one of them is missing.
\<close>

definition resolve :: "env \<Rightarrow> request \<Rightarrow> st \<Rightarrow> (reply + string \<times> string) \<times> st" where
  "resolve e req s =
    (let (v, s1) =
           (if videoId req \<noteq> [] then (Inr (videoId req), s)
            else case active_tab e of
                   None \<Rightarrow> (Inl (Failure NoActiveTab), s)
                 | Some tab_url \<Rightarrow>
                    (case URL_v e tab_url of
                       None \<Rightarrow> (Inl (Failure NoVideoId), emit (Warn ''Failed to parse tab URL'') s)
                     | Some vid \<Rightarrow>
                         if vid = [] then (Inl (Failure NoVideoId), s) else (Inr vid, s)))
     in case v of
          Inl r \<Rightarrow> (Inl r, s1)
        | Inr vid \<Rightarrow>
           (case stored_key e of
              None \<Rightarrow> (Inl (Failure NoApiKey), emit (Warn ''storageGet failed for ytApiKey'') s1)
            | Some apiKey \<Rightarrow>
                if apiKey = [] then (Inl (Failure NoApiKey), s1) else (Inr (vid, apiKey), s1)))"

text \<open>
  The listener on \<^verbatim>\<open>chrome.runtime.onMessage\<close>, with the asynchronous task it starts for
  a \<^verbatim>\<open>fetchComments\<close> message run to its end. \<open>None\<close> means that the task never ends.
\<close>

definition listener :: "env \<Rightarrow> request \<Rightarrow> st \<Rightarrow> st option" where
  "listener e req s =
    (if action req = ''fetchComments'' then
       (case resolve e req s of
          (Inl r, s1) \<Rightarrow> Some (emit (Respond r) s1)
        | (Inr (vid, apiKey), s1) \<Rightarrow>
           (case fetchAllComments e vid apiKey s1 of
              None \<Rightarrow> None
            | Some (Inl err, s2) \<Rightarrow>
                Some (emit (Respond (Failure err))
                       (emit (Err ''Unhandled error during fetchComments pipeline'') s2))
            | Some (Inr allComments, s2) \<Rightarrow>
                Some (emit (Respond (Success (length allComments)))
                       (sendAllComments e allComments s2))))
     else Some s)"

section \<open>The popup: records and their normalisation\<close>

text \<open>
  The value found in the \<^verbatim>\<open>timestamp\<close> field of a stored prediction, classified by what
  the script's tests and conversions make of it: \<open>Absent\<close> is \<^verbatim>\<open>undefined\<close>, \<^verbatim>\<open>null\<close> or
  the empty string; \<open>Number n\<close> a finite number; \<open>NumericString n\<close> a non-empty string that
  \<^verbatim>\<open>Number(..)\<close> converts to \<open>n\<close>; \<open>DateString ms\<close> a string that \<^verbatim>\<open>Number(..)\<close> maps to NaN
  and \<^verbatim>\<open>new Date(..)\<close> parses to the instant \<open>ms\<close>; \<open>Unparsable\<close> a string neither of them
  can read. Numbers are exact rationals: the rounding of IEEE arithmetic is not modelled.
\<close>

datatype tsval = Absent | Number rat | NaN | NumericString rat | DateString int | Unparsable

text \<open>
  The text of a comment is any string of the platform: the list of its UTF-16 code
  units. \<open>units\<close> gives the code units of a string of ASCII characters. A text that is
  missing, or is not a string, is \<open>None\<close>.
\<close>

type_synonym jstring = "int list"

definition units :: "string \<Rightarrow> jstring" where
  "units t = map of_char t"

record prediction =
  p_id :: string
  p_text :: "jstring option"
  p_sentiment :: "string option"
  p_sentimentStrength :: "string option"
  p_topic :: "string option"
  p_timestamp :: tsval
  p_emojis :: "string list option"

record comment =
  c_id :: string
  c_text :: "jstring option"
  c_sentiment :: string
  c_strength :: string
  c_topic :: string
  c_timestamp :: tsval
  c_emojis :: "string list"

text \<open>
  \<^verbatim>\<open>toLowerCase\<close> on the sentiment and the strength, which the script compares with words
  of ASCII letters only: the letters A to Z are mapped, other characters are kept.
\<close>

definition toLowerCase :: "string \<Rightarrow> string" where
  "toLowerCase w =
    map (\<lambda>c. let n = (of_char c :: nat) in if 65 \<le> n \<and> n \<le> 90 then char_of (n + 32) else c) w"

text \<open>\<^verbatim>\<open>p.f?.toLowerCase() || d\<close>\<close>

definition lower_or :: "string \<Rightarrow> string option \<Rightarrow> string" where
  "lower_or d v =
    (case v of
       None \<Rightarrow> d
     | Some w \<Rightarrow> if toLowerCase w = [] then d else toLowerCase w)"

definition falsy :: "tsval \<Rightarrow> bool" where
  "falsy ts = (case ts of Absent \<Rightarrow> True | NaN \<Rightarrow> True | Number n \<Rightarrow> n = 0 | _ \<Rightarrow> False)"

definition normalise :: "prediction \<Rightarrow> comment" where
  "normalise p =
    \<lparr>c_id = p_id p,
     c_text = p_text p,
     c_sentiment = lower_or ''neutral'' (p_sentiment p),
     c_strength = lower_or ''weak'' (p_sentimentStrength p),
     c_topic = (case p_topic p of None \<Rightarrow> ''General'' | Some t \<Rightarrow> if t = [] then ''General'' else t),
     c_timestamp = (if falsy (p_timestamp p) then Number 0 else p_timestamp p),
     c_emojis = (case p_emojis p of None \<Rightarrow> [] | Some es \<Rightarrow> es)\<rparr>"

text \<open>
  \<^verbatim>\<open>updateCommentsData\<close>: the new value of \<^verbatim>\<open>commentsData\<close>. An empty list of predictions
  leaves the state as it was.
\<close>

definition updateCommentsData :: "prediction list \<Rightarrow> comment list \<Rightarrow> comment list" where
  "updateCommentsData predictions commentsData =
    (if predictions \<noteq> [] then map normalise predictions else commentsData)"

section \<open>Counting in an object\<close>

text \<open>
  Both tallies of the popup count in a plain object, with \<^verbatim>\<open>o[k] = (o[k] || 0) + 1\<close>. A
  plain object inherits the properties of \<^verbatim>\<open>Object.prototype\<close>. For a name that is not
  inherited the value is a number. For an inherited method (\<^verbatim>\<open>constructor\<close> is one) the
  first read gives the function, which is truthy, and adding 1 to it gives a string: the
  source text of the function followed by \<^verbatim>\<open>1\<close>; the assignment makes that string a
  property of the object itself, and every later occurrence appends another \<^verbatim>\<open>1\<close>.
  \<open>Junk f j\<close> is the source text of the method \<open>f\<close> followed by \<open>j\<close> times \<^verbatim>\<open>1\<close>; used as
  a number it is NaN. For \<^verbatim>\<open>__proto__\<close> the assignment goes to the inherited setter,
  which ignores a string, so the object does not change.
\<close>

datatype 'k count = Num nat | Junk 'k nat

definition function_names :: "string list" where
  "function_names =
    [''constructor'', ''__defineGetter__'', ''__defineSetter__'', ''hasOwnProperty'',
     ''__lookupGetter__'', ''__lookupSetter__'', ''isPrototypeOf'', ''propertyIsEnumerable'',
     ''toString'', ''valueOf'', ''toLocaleString'']"

text \<open>
  The value of \<^verbatim>\<open>(o[k] || 0) + 1\<close>, from the property the object itself has under \<open>k\<close>, if
  any, and from whether \<open>k\<close> names an inherited method.
\<close>

definition next_count :: "bool \<Rightarrow> 'k \<Rightarrow> 'k count option \<Rightarrow> 'k count" where
  "next_count inherited k v =
    (case v of
       None \<Rightarrow> if inherited then Junk k 1 else Num 1
     | Some (Num n) \<Rightarrow> Num (n + 1)
     | Some (Junk f j) \<Rightarrow> Junk f (j + 1))"

section \<open>Sentiment counts\<close>

text \<open>
  The accumulator object of \<^verbatim>\<open>getSentimentCounts\<close> as the map from the names of its own
  properties to their values.
\<close>

definition count_step :: "(string \<rightharpoonup> string count) \<Rightarrow> comment \<Rightarrow> (string \<rightharpoonup> string count)" where
  "count_step acc c =
    (if c_sentiment c = ''__proto__'' then acc
     else acc(c_sentiment c \<mapsto>
            next_count (c_sentiment c \<in> set function_names) (c_sentiment c) (acc (c_sentiment c))))"

definition getSentimentCounts :: "comment list \<Rightarrow> (string \<rightharpoonup> string count)" where
  "getSentimentCounts commentsData =
    foldl count_step [''positive'' \<mapsto> Num 0, ''neutral'' \<mapsto> Num 0, ''negative'' \<mapsto> Num 0]
      commentsData"

section \<open>Time series\<close>

text \<open>A \<^verbatim>\<open>Date\<close> object: an instant in milliseconds, or the invalid date.\<close>

datatype date = Date int | InvalidDate

text \<open>\<^verbatim>\<open>new Date(v)\<close> for a number: the fraction is cut off, values out of range are invalid.\<close>

definition new_Date :: "rat \<Rightarrow> date" where
  "new_Date v =
    (if \<bar>v\<bar> \<le> 8640000000000000 then Date (if 0 \<le> v then \<lfloor>v\<rfloor> else \<lceil>v\<rceil>) else InvalidDate)"

definition to_millis :: "rat \<Rightarrow> rat" where
  "to_millis n = (if n < 1000000000000 then n * 1000 else n)"

text \<open>\<^verbatim>\<open>toDateFromAny\<close>; \<open>None\<close> is its \<^verbatim>\<open>null\<close>. Nothing in its \<^verbatim>\<open>try\<close> can throw.\<close>

definition toDateFromAny :: "tsval \<Rightarrow> date option" where
  "toDateFromAny ts =
    (if falsy ts then None
     else case ts of
            Number n \<Rightarrow> Some (new_Date (to_millis n))
          | NumericString n \<Rightarrow> Some (new_Date (to_millis n))
          | DateString ms \<Rightarrow> Some (Date ms)
          | _ \<Rightarrow> Some InvalidDate)"

text \<open>One row of the series; the bin start \<open>None\<close> is NaN.\<close>

record bin_row =
  bin :: "int option"
  positive :: nat
  neutral :: nat
  negative :: nat

text \<open>\<^verbatim>\<open>Math.floor(Math.floor(ts.getTime() / 1000) / 30) * 30\<close>\<close>

definition bin_of :: "date \<Rightarrow> int option" where
  "bin_of d = (case d of InvalidDate \<Rightarrow> None | Date ms \<Rightarrow> Some (ms div 1000 div 30 * 30))"

text \<open>
  \<^verbatim>\<open>if (c.sentiment && map[bin][c.sentiment] !== undefined) map[bin][c.sentiment] += 1\<close>:
  the row has four properties of its own, and \<^verbatim>\<open>bin\<close> is one of them.
\<close>

definition bump_row :: "string \<Rightarrow> bin_row \<Rightarrow> bin_row" where
  "bump_row s r =
    (if s = ''positive'' then r\<lparr>positive := positive r + 1\<rparr>
     else if s = ''neutral'' then r\<lparr>neutral := neutral r + 1\<rparr>
     else if s = ''negative'' then r\<lparr>negative := negative r + 1\<rparr>
     else if s = ''bin'' then r\<lparr>bin := map_option (\<lambda>b. b + 1) (bin r)\<rparr>
     else r)"

definition modify :: "'k \<Rightarrow> ('v \<Rightarrow> 'v) \<Rightarrow> ('k \<times> 'v) list \<Rightarrow> ('k \<times> 'v) list" where
  "modify k f m = map (\<lambda>(k', v). if k' = k then (k', f v) else (k', v)) m"

text \<open>The body of the \<^verbatim>\<open>forEach\<close>; the object \<^verbatim>\<open>map\<close> is a list of its entries as inserted.\<close>

definition timeline_step ::
  "(int option \<times> bin_row) list \<Rightarrow> comment \<Rightarrow> (int option \<times> bin_row) list" where
  "timeline_step m c =
    (case toDateFromAny (c_timestamp c) of
       None \<Rightarrow> m
     | Some ts \<Rightarrow>
        (let b = bin_of ts;
             m1 = (case map_of m b of
                     None \<Rightarrow> m @ [(b, \<lparr>bin = b, positive = 0, neutral = 0, negative = 0\<rparr>)]
                   | Some r \<Rightarrow> m)
         in modify b (bump_row (c_sentiment c)) m1))"

text \<open>
  \<^verbatim>\<open>.sort((a, b) => a.bin - b.bin)\<close> as a stable insertion sort; a comparison with NaN
  counts as equal. Where a bin start is NaN the comparator is not consistent and the
  engine may order the rows differently.
\<close>

definition bin_before :: "bin_row \<Rightarrow> bin_row \<Rightarrow> bool" where
  "bin_before a b = (case (bin a, bin b) of (Some x, Some y) \<Rightarrow> x < y | _ \<Rightarrow> False)"

fun insert_row :: "bin_row \<Rightarrow> bin_row list \<Rightarrow> bin_row list" where
  "insert_row x [] = [x]"
| "insert_row x (y # ys) = (if bin_before y x then y # insert_row x ys else x # y # ys)"

definition sort_rows :: "bin_row list \<Rightarrow> bin_row list" where
  "sort_rows rows = foldr insert_row rows []"

definition processTimelineData :: "comment list \<Rightarrow> bin_row list" where
  "processTimelineData commentsData = sort_rows (map snd (foldl timeline_step [] commentsData))"

section \<open>Double-precision arithmetic\<close>

text \<open>
  The numbers of the script are IEEE doubles. A double is modelled by the rational it
  denotes, and an operation by the exact operation followed by the rounding to the
  nearest double, ties to the even significand. \<open>expo x\<close> is the exponent of the last
  place of the 53-bit significand of \<open>x > 0\<close>: \<open>2\<^sup>5\<^sup>2 \<le> x / 2\<^sup>e < 2\<^sup>5\<^sup>3\<close>. Overflow and
  subnormal numbers are not modelled: the quotients, products and sums below are far
  from both.
\<close>

definition pow2 :: "int \<Rightarrow> rat" where
  "pow2 k = (if 0 \<le> k then 2 ^ nat k else 1 / 2 ^ nat (- k))"

text \<open>The nearest integer, the even one on a tie.\<close>

definition rne :: "rat \<Rightarrow> int" where
  "rne y =
    (let m = \<lfloor>y\<rfloor>; f = y - of_int m
     in if f < 1 / 2 then m else if 1 / 2 < f then m + 1 else if even m then m else m + 1)"

definition expo :: "rat \<Rightarrow> int" where
  "expo x =
    (let (a, b) = quotient_of x;
         k = bitlen a - bitlen b
     in if x < pow2 k then k - 53 else k - 52)"

definition round_double :: "rat \<Rightarrow> rat" where
  "round_double x =
    (if x = 0 then 0
     else sgn x * of_int (rne (\<bar>x\<bar> / pow2 (expo \<bar>x\<bar>))) * pow2 (expo \<bar>x\<bar>))"

text \<open>The operators \<^verbatim>\<open>/\<close>, \<^verbatim>\<open>*\<close> and \<^verbatim>\<open>+\<close> on doubles.\<close>

definition fdiv :: "rat \<Rightarrow> rat \<Rightarrow> rat" where
  "fdiv x y = round_double (x / y)"

definition fmul :: "rat \<Rightarrow> rat \<Rightarrow> rat" where
  "fmul x y = round_double (x * y)"

definition fadd :: "rat \<Rightarrow> rat \<Rightarrow> rat" where
  "fadd x y = round_double (x + y)"

section \<open>Token ranking\<close>

definition stopWords :: "jstring list" where
  "stopWords = map units
    [''the'', ''a'', ''an'', ''and'', ''or'', ''but'', ''is'', ''are'', ''was'', ''were'', ''to'',
     ''in'', ''of'', ''for'', ''on'', ''with'', ''from'', ''as'', ''at'', ''it'', ''this'', ''that'',
     ''so'', ''what'', ''you'', ''i'', ''me'', ''my'', ''he'', ''she'', ''we'', ''they'', ''our'',
     ''their'', ''your'', ''be'', ''been'', ''about'', ''just'', ''can'', ''cant'', ''would'',
     ''will'', ''go'', ''up'', ''down'', ''out'', ''off'', ''too'', ''very'', ''here'', ''there'',
     ''who'', ''how'', ''when'', ''why'', ''like'', ''video'', ''content'', ''quality'']"

text \<open>The code units of the class \<^verbatim>\<open>[.,!?'"()/]\<close>.\<close>

definition punctuation :: "int list" where
  "punctuation = [46, 44, 33, 63, 39, 34, 40, 41, 47]"

text \<open>
  The class \<^verbatim>\<open>\s\<close>: tab, line feed, vertical tab, form feed, carriage return, space,
  no-break space, U+1680, U+2000 to U+200A, the line and the paragraph separator, U+202F,
  U+205F, U+3000 and U+FEFF.
\<close>

definition is_space :: "int \<Rightarrow> bool" where
  "is_space u =
    (u \<in> set [9, 10, 11, 12, 13, 32, 160, 5760, 8232, 8233, 8239, 8287, 12288, 65279]
     \<or> (8192 \<le> u \<and> u \<le> 8202))"

text \<open>
  \<^verbatim>\<open>split(/\s+/)\<close>: the pieces between the runs of white space, an empty piece at either
  end included.
\<close>

function split_ws :: "jstring \<Rightarrow> jstring list" where
  "split_ws t =
    (case dropWhile (\<lambda>u. \<not> is_space u) t of
       [] \<Rightarrow> [takeWhile (\<lambda>u. \<not> is_space u) t]
     | sp # rest \<Rightarrow> takeWhile (\<lambda>u. \<not> is_space u) t # split_ws (dropWhile is_space rest))"
  by pat_completeness auto
termination
proof (relation "measure length")
  show "wf (measure length)" by simp
next
  fix t :: jstring and sp rest
  assume "dropWhile (\<lambda>u. \<not> is_space u) t = sp # rest"
  then have "length (sp # rest) \<le> length t"
    by (metis length_dropWhile_le)
  moreover have "length (dropWhile is_space rest) \<le> length rest"
    by (rule length_dropWhile_le)
  ultimately show "(dropWhile is_space rest, t) \<in> measure length" by simp
qed

definition join_space :: "jstring list \<Rightarrow> jstring" where
  "join_space ts = (case ts of [] \<Rightarrow> [] | t # rest \<Rightarrow> foldl (\<lambda>acc x. acc @ [32] @ x) t rest)"

text \<open>
  The words of all texts. \<open>lower\<close> is \<^verbatim>\<open>String.prototype.toLowerCase\<close> of the platform, which
  follows the Unicode case mappings. The result is \<open>None\<close> when a record has no text:
  \<^verbatim>\<open>c.text.toLowerCase()\<close> throws.
\<close>

definition all_words :: "(jstring \<Rightarrow> jstring) \<Rightarrow> comment list \<Rightarrow> jstring list option" where
  "all_words lower commentsData =
    map_option
      (\<lambda>texts. split_ws (join_space (map (\<lambda>t. filter (\<lambda>u. u \<notin> set punctuation) (lower t)) texts)))
      (those (map c_text commentsData))"

text \<open>
  The object \<^verbatim>\<open>counts\<close> as the list of its own properties in the order of their creation.
\<close>

definition word_step :: "(jstring \<times> jstring count) list \<Rightarrow> jstring \<Rightarrow> (jstring \<times> jstring count) list" where
  "word_step counts w =
    (if length w > 2 \<and> w \<notin> set stopWords then
       (if w = units ''__proto__'' then counts
        else case map_of counts w of
               None \<Rightarrow> counts @ [(w, next_count (w \<in> set (map units function_names)) w None)]
             | Some v \<Rightarrow> modify w (\<lambda>v. next_count False w (Some v)) counts)
     else counts)"

text \<open>
  \<^verbatim>\<open>Object.entries\<close> lists the properties whose name is an array index first, in ascending
  order of the index, and then the others in the order of their creation. An array index
  is the decimal numeral, without a leading zero, of a number up to \<open>2\<^sup>3\<^sup>2 - 2\<close>.
\<close>

definition index_value :: "jstring \<Rightarrow> int" where
  "index_value w = foldl (\<lambda>a d. a * 10 + (d - 48)) 0 w"

definition is_index :: "jstring \<Rightarrow> bool" where
  "is_index w =
    (w \<noteq> [] \<and> list_all (\<lambda>d. 48 \<le> d \<and> d \<le> 57) w \<and> (hd w \<noteq> 48 \<or> length w = 1)
     \<and> index_value w \<le> 4294967294)"

definition entries :: "(jstring \<times> 'v) list \<Rightarrow> (jstring \<times> 'v) list" where
  "entries obj =
    sort_key (\<lambda>p. index_value (fst p)) (filter (\<lambda>p. is_index (fst p)) obj)
    @ filter (\<lambda>p. \<not> is_index (fst p)) obj"

text \<open>
  \<^verbatim>\<open>.sort(([, a], [, b]) => b - a)\<close> as a stable insertion sort: an entry stays before the
  one inserted when its count is the larger one. A difference that is NaN counts as
  equal; where the object holds a string the comparator is not consistent and the engine
  may order the entries differently.
\<close>

definition count_less :: "'k count \<Rightarrow> 'k count \<Rightarrow> bool" where
  "count_less a b = (case (a, b) of (Num x, Num y) \<Rightarrow> x < y | _ \<Rightarrow> False)"

fun insert_entry :: "('w \<times> 'k count) \<Rightarrow> ('w \<times> 'k count) list \<Rightarrow> ('w \<times> 'k count) list" where
  "insert_entry x [] = [x]"
| "insert_entry x (y # ys) =
    (if count_less (snd x) (snd y) then y # insert_entry x ys else x # y # ys)"

definition sort_entries :: "('w \<times> 'k count) list \<Rightarrow> ('w \<times> 'k count) list" where
  "sort_entries xs = foldr insert_entry xs []"

text \<open>
  \<^verbatim>\<open>max === min ? 2 : 1 + (count - min) / (max - min) * 4\<close>; \<open>None\<close> is NaN. The counts are
  integers, on which the subtraction is exact; with a string among the three values the
  differences are NaN.
\<close>

definition scale :: "'k count \<Rightarrow> 'k count \<Rightarrow> 'k count \<Rightarrow> rat option" where
  "scale mx mn c =
    (if mx = mn then Some 2
     else case (mx, mn, c) of
            (Num a, Num b, Num n) \<Rightarrow>
              Some (fadd 1 (fmul (fdiv (of_nat n - of_nat b) (of_nat a - of_nat b)) 4))
          | _ \<Rightarrow> None)"

record cloud_word =
  word :: jstring
  size :: "rat option"
  rotation :: int

text \<open>
  \<^verbatim>\<open>processWordCloudData\<close>; \<open>rnd i\<close> is the value \<^verbatim>\<open>Math.random()\<close> returns for the
  \<open>i\<close>-th word, compared with the double \<^verbatim>\<open>0.7\<close>. The \<^verbatim>\<open>catch\<close> turns the exception of a
  missing text into the empty list.
\<close>

definition processWordCloudData ::
  "(jstring \<Rightarrow> jstring) \<Rightarrow> (nat \<Rightarrow> rat) \<Rightarrow> comment list \<Rightarrow> cloud_word list" where
  "processWordCloudData lower rnd commentsData =
    (case all_words lower commentsData of
       None \<Rightarrow> []
     | Some ws \<Rightarrow>
        (let sorted = sort_entries (entries (foldl word_step [] ws));
             mx = (if sorted \<noteq> [] then snd (hd sorted) else Num 1);
             mn = (if sorted \<noteq> [] then snd (last sorted) else Num 1)
         in map (\<lambda>(i, (w, n)).
                   \<lparr>word = w, size = scale mx mn n,
                    rotation = (if rnd i > round_double (7 / 10) then - 90 else 0)\<rparr>)
                (enumerate 0 (take 30 sorted))))"

section \<open>Selection and breakdown\<close>

definition digit_char :: "nat \<Rightarrow> char" where
  "digit_char n = char_of (48 + n)"

function decimal :: "nat \<Rightarrow> string" where
  "decimal n = (if n < 10 then [digit_char n] else decimal (n div 10) @ [digit_char (n mod 10)])"
  by pat_completeness auto
termination
  by (relation "measure id") auto

text \<open>
  \<^verbatim>\<open>x.toFixed(1)\<close> for a double \<open>x \<ge> 0\<close>: the multiple of one tenth nearest to the number
  the double denotes, the larger one on a tie, written with one digit after the point.
\<close>

definition toFixed1 :: "rat \<Rightarrow> string" where
  "toFixed1 x =
    (let n = nat \<lfloor>x * 10 + 1 / 2\<rfloor> in decimal (n div 10) @ ''.'' @ decimal (n mod 10))"

text \<open>\<^verbatim>\<open>(count / total * 100).toFixed(1)\<close>; the two lengths are integers.\<close>

definition percent :: "nat \<Rightarrow> nat \<Rightarrow> string" where
  "percent n tot = toFixed1 (fmul (fdiv (of_nat n) (of_nat tot)) 100)"

record breakdown =
  total :: nat
  strongPercent :: string
  weakPercent :: string
  strongTop5 :: "comment list"
  weakTop5 :: "comment list"

text \<open>
  The computing part of \<^verbatim>\<open>renderDetailedBreakdown\<close>, for a page that has the container
  of the breakdown; without a selected sentiment (\<^verbatim>\<open>null\<close>, or the empty string, which is
  falsy too) the function clears the container and computes nothing.
\<close>

definition renderDetailedBreakdown :: "comment list \<Rightarrow> string option \<Rightarrow> breakdown option" where
  "renderDetailedBreakdown commentsData selectedSentiment =
    (case selectedSentiment of
       None \<Rightarrow> None
     | Some sel \<Rightarrow>
        if sel = [] then None else
        (let filtered = filter (\<lambda>c. c_sentiment c = sel) commentsData;
             allStrong = filter (\<lambda>c. c_strength c = ''strong'') filtered;
             allWeak = filter (\<lambda>c. c_strength c = ''weak'') filtered;
             tot = (if length allStrong + length allWeak = 0 then 1
                    else length allStrong + length allWeak)
         in Some \<lparr>total = tot,
                  strongPercent = percent (length allStrong) tot,
                  weakPercent = percent (length allWeak) tot,
                  strongTop5 = take 5 allStrong,
                  weakTop5 = take 5 allWeak\<rparr>))"

section \<open>Vocabulary of the statements\<close>

text \<open>The events that reach the network or the timer.\<close>

definition is_net :: "event \<Rightarrow> bool" where
  "is_net ev = (case ev of Fetch _ \<Rightarrow> True | Sleep _ \<Rightarrow> True | _ \<Rightarrow> False)"

definition is_respond :: "event \<Rightarrow> bool" where
  "is_respond ev = (case ev of Respond _ \<Rightarrow> True | _ \<Rightarrow> False)"

text \<open>What an attempt makes of the answer to the \<open>n\<close>-th request, when it goes to \<open>u\<close>.\<close>

definition outcome :: "env \<Rightarrow> url \<Rightarrow> nat \<Rightarrow> error + payload" where
  "outcome e u n = fst (attempt e u \<lparr>clock = n, trace = []\<rparr>)"

text \<open>
  What \<^verbatim>\<open>JSON.parse\<close> makes of the body of a response; an attempt reads a body that is empty
  or cannot be read as \<^verbatim>\<open>{}\<close>.
\<close>

definition parsed_body :: "env \<Rightarrow> response \<Rightarrow> payload option" where
  "parsed_body e resp =
    JSON_parse e (case body resp of None \<Rightarrow> ''{}'' | Some t \<Rightarrow> if t = [] then ''{}'' else t)"

text \<open>
  The answers of a source that are failures: a rejected request; a response whose body
  does not parse, whatever its status; a response whose status is not a success and whose
  body carries an error message of the service. A response whose status is not a success
  and whose body parses without such a message is left out of this class.
\<close>

definition failed_answer :: "env \<Rightarrow> string + response \<Rightarrow> bool" where
  "failed_answer e a =
    (case a of
       Inl msg \<Rightarrow> True
     | Inr resp \<Rightarrow>
        (case parsed_body e resp of
           None \<Rightarrow> True
         | Some b \<Rightarrow> \<not> ok resp \<and> error_message b \<noteq> []))"

text \<open>The reason of a failed answer: what the attempt throws for it.\<close>

definition failure_reason :: "string + response \<Rightarrow> error" where
  "failure_reason a =
    (case a of
       Inl msg \<Rightarrow> NetworkError msg
     | Inr resp \<Rightarrow>
        if ok resp then ParseError
        else (let snip = take 300 (case body resp of None \<Rightarrow> [] | Some t \<Rightarrow> t)
              in HttpError (status resp) (if snip = [] then statusText resp else snip)))"

text \<open>A success: a response with a success status whose body parses to \<open>p\<close>.\<close>

definition good_answer :: "env \<Rightarrow> string + response \<Rightarrow> payload \<Rightarrow> bool" where
  "good_answer e a p =
    (case a of Inl msg \<Rightarrow> False | Inr resp \<Rightarrow> ok resp \<and> parsed_body e resp = Some p)"

text \<open>The source fails the \<open>k\<close> requests from the \<open>m\<close>-th on, sent to \<open>u\<close>.\<close>

definition source_fails :: "env \<Rightarrow> url \<Rightarrow> nat \<Rightarrow> nat \<Rightarrow> bool" where
  "source_fails e u m k = (\<forall>j<k. failed_answer e (fetch e (m + j) u))"

text \<open>
  The schedule the specification asks for: \<open>k\<close> attempts numbered from \<open>i\<close>, each followed
  by a wait of \<open>d\<close> times one more than its number, and then one more attempt.
\<close>

definition backoff_schedule :: "url \<Rightarrow> int \<Rightarrow> nat \<Rightarrow> nat \<Rightarrow> event list" where
  "backoff_schedule u d i k =
     concat (map (\<lambda>j. [Fetch u, Sleep (d * (1 + int j))]) [i..<i + k]) @ [Fetch u]"

text \<open>
  From the \<open>N\<close>-th request on, no response the fetcher accepts carries a continuation
  cursor.
\<close>

definition last_page_from :: "env \<Rightarrow> nat \<Rightarrow> bool" where
  "last_page_from e N = (\<forall>n\<ge>N. \<forall>u p. outcome e u n = Inr p \<longrightarrow> nextPageToken p = [])"

definition st0 :: st where
  "st0 = \<lparr>clock = 0, trace = []\<rparr>"

text \<open>A source that answers every request with an empty page and the cursor \<open>a\<close>.\<close>

definition cyclic_env :: env where
  "cyclic_env =
    \<lparr>fetch = (\<lambda>n u. Inr \<lparr>ok = True, status = 200, statusText = ''OK'', body = Some ''page''\<rparr>),
     JSON_parse = (\<lambda>t. Some \<lparr>error_message = [], items = [], nextPageToken = ''a''\<rparr>),
     Date_seconds = (\<lambda>t. None),
     match_emojis = (\<lambda>t. []),
     URL_v = (\<lambda>t. Some ''v''),
     active_tab = Some ''https://www.youtube.com/watch?v=v'',
     stored_key = Some ''k'',
     analyze = (\<lambda>cs. Inr ()),
     storage_ok = True\<rparr>"

text \<open>A network that rejects every request.\<close>

definition down_env :: env where
  "down_env =
    \<lparr>fetch = (\<lambda>n u. Inl ''Failed to fetch''),
     JSON_parse = (\<lambda>t. None),
     Date_seconds = (\<lambda>t. None),
     match_emojis = (\<lambda>t. []),
     URL_v = (\<lambda>t. None),
     active_tab = None,
     stored_key = Some ''k'',
     analyze = (\<lambda>cs. Inr ()),
     storage_ok = True\<rparr>"

text \<open>
  A source that rejects the first request, answers the second with the status 500 and a
  page of markup, and every later one with the status 403 and an error message of the
  service.
\<close>

definition refusing_env :: env where
  "refusing_env =
    \<lparr>fetch = (\<lambda>n u. if n = 0 then Inl ''Failed to fetch''
                     else if n = 1
                     then Inr \<lparr>ok = False, status = 500, statusText = ''Internal Server Error'',
                               body = Some ''<html>''\<rparr>
                     else Inr \<lparr>ok = False, status = 403, statusText = ''Forbidden'',
                               body = Some ''quota''\<rparr>),
     JSON_parse = (\<lambda>t. if t = ''quota''
                        then Some \<lparr>error_message = ''quotaExceeded'', items = [], nextPageToken = []\<rparr>
                        else None),
     Date_seconds = (\<lambda>t. None),
     match_emojis = (\<lambda>t. []),
     URL_v = (\<lambda>t. None),
     active_tab = None,
     stored_key = Some ''k'',
     analyze = (\<lambda>cs. Inr ()),
     storage_ok = True\<rparr>"

text \<open>
  A source that answers the first request with the status 503 and no body that parses,
  the second with a success status and a body that does not parse, and every later one
  with an empty page.
\<close>

definition recovering_env :: env where
  "recovering_env =
    \<lparr>fetch = (\<lambda>n u. if n = 0
                     then Inr \<lparr>ok = False, status = 503, statusText = ''Service Unavailable'',
                               body = Some ''busy''\<rparr>
                     else if n = 1
                     then Inr \<lparr>ok = True, status = 200, statusText = ''OK'', body = Some ''<html>''\<rparr>
                     else Inr \<lparr>ok = True, status = 200, statusText = ''OK'', body = Some ''page''\<rparr>),
     JSON_parse = (\<lambda>t. if t = ''page''
                        then Some \<lparr>error_message = [], items = [], nextPageToken = []\<rparr>
                        else None),
     Date_seconds = (\<lambda>t. None),
     match_emojis = (\<lambda>t. []),
     URL_v = (\<lambda>t. None),
     active_tab = None,
     stored_key = Some ''k'',
     analyze = (\<lambda>cs. Inr ()),
     storage_ok = True\<rparr>"

text \<open>A source that answers every request with the status 500 and an empty body.\<close>

definition http500_env :: env where
  "http500_env =
    \<lparr>fetch = (\<lambda>n u. Inr \<lparr>ok = False, status = 500, statusText = ''Internal Server Error'',
                           body = Some []\<rparr>),
     JSON_parse = (\<lambda>t. if t = ''{}''
                        then Some \<lparr>error_message = [], items = [], nextPageToken = []\<rparr>
                        else None),
     Date_seconds = (\<lambda>t. None),
     match_emojis = (\<lambda>t. []),
     URL_v = (\<lambda>t. None),
     active_tab = None,
     stored_key = Some ''k'',
     analyze = (\<lambda>cs. Inr ()),
     storage_ok = True\<rparr>"

text \<open>Three empty pages: the first two carry the cursors \<open>b\<close> and \<open>c\<close>, the third none.\<close>

definition three_pages_env :: env where
  "three_pages_env =
    \<lparr>fetch = (\<lambda>n u. Inr \<lparr>ok = True, status = 200, statusText = ''OK'',
                           body = Some (if n = 0 then ''1'' else if n = 1 then ''2'' else ''3'')\<rparr>),
     JSON_parse = (\<lambda>t. Some \<lparr>error_message = [], items = [],
                             nextPageToken = (if t = ''1'' then ''b'' else if t = ''2'' then ''c'' else [])\<rparr>),
     Date_seconds = (\<lambda>t. None),
     match_emojis = (\<lambda>t. []),
     URL_v = (\<lambda>t. None),
     active_tab = None,
     stored_key = Some ''k'',
     analyze = (\<lambda>cs. Inr ()),
     storage_ok = True\<rparr>"

text \<open>The answers sent to the caller, among the events of a state.\<close>

definition responses :: "st \<Rightarrow> event list" where
  "responses s = filter is_respond (trace s)"

text \<open>
  The task of the listener gets past its walk: a precondition fails, or the walk over
  the threads returns.
\<close>

definition walk_returns :: "env \<Rightarrow> request \<Rightarrow> st \<Rightarrow> bool" where
  "walk_returns e req s =
    (case resolve e req s of
       (Inl r, s1) \<Rightarrow> True
     | (Inr (vid, apiKey), s1) \<Rightarrow> fetchAllComments e vid apiKey s1 \<noteq> None)"

definition reply_item :: item where
  "reply_item =
    \<lparr>item_id = ''r1'',
     snippet = Some \<lparr>own_comment = \<lparr>textDisplay = ''me too'', publishedAt = ''2024-01-01T00:00:10Z''\<rparr>,
                     topLevelComment = None, totalReplyCount = 0\<rparr>\<rparr>"

definition thread_item :: item where
  "thread_item =
    \<lparr>item_id = ''t1'',
     snippet = Some \<lparr>own_comment = \<lparr>textDisplay = [], publishedAt = []\<rparr>,
                     topLevelComment =
                       Some \<lparr>tlc_id = ''c1'',
                             tlc_snippet = Some \<lparr>textDisplay = ''nice'', publishedAt = ''2024-01-01T00:00:00Z''\<rparr>\<rparr>,
                     totalReplyCount = 2\<rparr>\<rparr>"

text \<open>
  A source that answers the first request with one reply and the cursor \<open>n\<close>, and rejects
  every later request.
\<close>

definition partial_env :: env where
  "partial_env =
    \<lparr>fetch = (\<lambda>n u. if n = 0
                     then Inr \<lparr>ok = True, status = 200, statusText = ''OK'', body = Some ''r''\<rparr>
                     else Inl ''Failed to fetch''),
     JSON_parse = (\<lambda>t. Some \<lparr>error_message = [], items = [reply_item], nextPageToken = ''n''\<rparr>),
     Date_seconds = (\<lambda>t. None),
     match_emojis = (\<lambda>t. []),
     URL_v = (\<lambda>t. None),
     active_tab = None,
     stored_key = Some ''k'',
     analyze = (\<lambda>cs. Inr ()),
     storage_ok = True\<rparr>"

text \<open>The page that source sends first, and the state after it has been fetched.\<close>

definition reply_page :: payload where
  "reply_page = \<lparr>error_message = [], items = [reply_item], nextPageToken = ''n''\<rparr>"

definition after_reply_page :: st where
  "after_reply_page = \<lparr>clock = 1, trace = [Fetch (replies_url ''c1'' ''k'' [])]\<rparr>"

text \<open>A thread item that counts one reply and has no top-level comment.\<close>

definition orphan_item :: item where
  "orphan_item =
    \<lparr>item_id = ''t2'',
     snippet = Some \<lparr>own_comment = \<lparr>textDisplay = [], publishedAt = []\<rparr>,
                     topLevelComment = None, totalReplyCount = 1\<rparr>\<rparr>"

text \<open>The state in which the walk over the replies of \<open>c1\<close> fails against that source.\<close>

definition partial_state :: st where
  "partial_state =
    \<lparr>clock = 4,
     trace =
       [Fetch (replies_url ''c1'' ''k'' []),
        Fetch (replies_url ''c1'' ''k'' ''n''), Warn ''Attempt failed'', Sleep 1000,
        Fetch (replies_url ''c1'' ''k'' ''n''), Warn ''Attempt failed'', Sleep 2000,
        Fetch (replies_url ''c1'' ''k'' ''n''), Warn ''Attempt failed'',
        Err ''fetchWithRetry exhausted all attempts'']\<rparr>"

text \<open>
  The walk over the replies of \<open>parentId\<close> fetches the pages \<open>ps\<close> one after the other,
  from the cursor \<open>pageToken\<close> on, and each of them carries a cursor: the result is the
  cursor of the last page and the state after it.
\<close>

fun reply_pages ::
  "env \<Rightarrow> string \<Rightarrow> string \<Rightarrow> string \<Rightarrow> payload list \<Rightarrow> st \<Rightarrow> (string \<times> st) option" where
  "reply_pages e parentId apiKey pageToken [] s = Some (pageToken, s)"
| "reply_pages e parentId apiKey pageToken (p # ps) s =
    (case fetchWithRetry e (replies_url parentId apiKey pageToken) 3 1000 s of
       (Inl err, s1) \<Rightarrow> None
     | (Inr data, s1) \<Rightarrow>
         if data = p \<and> nextPageToken p \<noteq> []
         then reply_pages e parentId apiKey (nextPageToken p) ps s1
         else None)"

text \<open>The replies of a list of pages, in the order of the pages.\<close>

definition replies_of :: "env \<Rightarrow> payload list \<Rightarrow> fetched list" where
  "replies_of e ps = concat (map (\<lambda>p. reply_records e (items p)) ps)"

text \<open>
  The three recognised sentiment values, the number a count stands for, and the sum of
  the three counts.
\<close>

definition sentiments :: "string set" where
  "sentiments = {''positive'', ''neutral'', ''negative''}"

definition num_of :: "'k count \<Rightarrow> nat" where
  "num_of v = (case v of Num n \<Rightarrow> n | Junk f j \<Rightarrow> 0)"

definition three_sum :: "(string \<rightharpoonup> string count) \<Rightarrow> nat" where
  "three_sum m =
    num_of (the (m ''positive'')) + num_of (the (m ''neutral'')) + num_of (the (m ''negative''))"

text \<open>The number of records with a given sentiment.\<close>

definition with_sentiment :: "comment list \<Rightarrow> string \<Rightarrow> nat" where
  "with_sentiment R k = length (filter (\<lambda>c. c_sentiment c = k) R)"

text \<open>
  The predictions that come out of the normalisation as neutral: those whose sentiment
  is missing or empty, and those whose sentiment is that word in any case of letters.
\<close>

definition reads_neutral :: "prediction \<Rightarrow> bool" where
  "reads_neutral p =
    (case p_sentiment p of None \<Rightarrow> True | Some w \<Rightarrow> w = [] \<or> toLowerCase w = ''neutral'')"

text \<open>The strong and the weak records of a sentiment.\<close>

definition strong_count :: "comment list \<Rightarrow> string \<Rightarrow> nat" where
  "strong_count cs sel = length (filter (\<lambda>c. c_sentiment c = sel \<and> c_strength c = ''strong'') cs)"

definition weak_count :: "comment list \<Rightarrow> string \<Rightarrow> nat" where
  "weak_count cs sel = length (filter (\<lambda>c. c_sentiment c = sel \<and> c_strength c = ''weak'') cs)"

definition mixed_prediction :: prediction where
  "mixed_prediction =
    \<lparr>p_id = ''1'', p_text = Some (units ''so so''), p_sentiment = Some ''Mixed'', p_sentimentStrength = None,
     p_topic = None, p_timestamp = Number 5, p_emojis = None\<rparr>"

definition missing_prediction :: prediction where
  "missing_prediction =
    \<lparr>p_id = ''2'', p_text = Some (units ''hm''), p_sentiment = None, p_sentimentStrength = None,
     p_topic = None, p_timestamp = Absent, p_emojis = None\<rparr>"

definition plain_comment :: "string \<Rightarrow> string \<Rightarrow> rat \<Rightarrow> comment" where
  "plain_comment sen str t =
    \<lparr>c_id = ''1'', c_text = Some (units ''nice song''), c_sentiment = sen, c_strength = str,
     c_topic = ''General'', c_timestamp = Number t, c_emojis = []\<rparr>"

definition four_positive :: "comment list" where
  "four_positive =
    [plain_comment ''positive'' ''strong'' 5, plain_comment ''positive'' ''weak'' 40,
     plain_comment ''positive'' ''strong'' 65, plain_comment ''negative'' ''strong'' 70,
     plain_comment ''positive'' ''strong'' 100]"

text \<open>
  The key under which the time series files a record: \<open>None\<close> when the record is
  dropped, otherwise the bin start the script computes (which may be NaN).
\<close>

definition row_key :: "comment \<Rightarrow> int option option" where
  "row_key c = map_option bin_of (toDateFromAny (c_timestamp c))"

text \<open>The three counts of a row, added up.\<close>

definition row_total :: "bin_row \<Rightarrow> nat" where
  "row_total r = positive r + neutral r + negative r"

text \<open>
  The timestamp of a record as a number of seconds (zero when it is not a number); a
  plain record has a recognised sentiment and a number of seconds from zero up to, not
  including, \<open>10\<^sup>1\<^sup>2\<close>.
\<close>

definition stamp :: "comment \<Rightarrow> rat" where
  "stamp c = (case c_timestamp c of Number t \<Rightarrow> t | _ \<Rightarrow> 0)"

definition plain_record :: "comment \<Rightarrow> bool" where
  "plain_record c =
    (c_sentiment c \<in> sentiments \<and>
     (case c_timestamp c of Number t \<Rightarrow> 0 \<le> t \<and> t < 1000000000000 | _ \<Rightarrow> False))"

text \<open>The bin of the specification: \<^verbatim>\<open>floor(timestamp / 30) * 30\<close>.\<close>

definition bin_start :: "rat \<Rightarrow> int" where
  "bin_start t = \<lfloor>t / 30\<rfloor> * 30"

text \<open>The number of records filed under a key.\<close>

definition keyed :: "comment list \<Rightarrow> int option \<Rightarrow> nat" where
  "keyed P k = length (filter (\<lambda>c. row_key c = Some k) P)"

text \<open>
  What holds of the entries of \<^verbatim>\<open>map\<close> after the records \<open>P\<close>: one entry per key in use,
  each with its key as bin start and with as many counts as records under the key.
\<close>

definition timeline_inv :: "(int option \<times> bin_row) list \<Rightarrow> comment list \<Rightarrow> bool" where
  "timeline_inv m P =
    (distinct (map fst m) \<and>
     (\<forall>k. (map_of m k = None) = (keyed P k = 0)) \<and>
     (\<forall>k r. map_of m k = Some r \<longrightarrow> bin r = k \<and> row_total r = keyed P k))"

text \<open>Twenty-three strong and fifty-seven weak records of one sentiment.\<close>

definition eighty :: "comment list" where
  "eighty = replicate 23 (plain_comment ''negative'' ''strong'' 5)
            @ replicate 57 (plain_comment ''negative'' ''weak'' 5)"

definition odd_records :: "comment list" where
  "odd_records =
    [plain_comment ''mixed'' ''weak'' 5, plain_comment ''positive'' ''weak'' 0,
     plain_comment ''positive'' ''weak'' 2000000000000]"

definition unparsable_prediction :: prediction where
  "unparsable_prediction =
    \<lparr>p_id = ''3'', p_text = Some (units ''first''), p_sentiment = Some ''positive'', p_sentimentStrength = None,
     p_topic = None, p_timestamp = Unparsable, p_emojis = None\<rparr>"

text \<open>
  The words that survive the filter of the token ranking, the frequency of a word among
  them, and the largest and the smallest frequency.
\<close>

definition keep_word :: "jstring \<Rightarrow> bool" where
  "keep_word w = (length w > 2 \<and> w \<notin> set stopWords)"

definition surviving :: "(jstring \<Rightarrow> jstring) \<Rightarrow> comment list \<Rightarrow> jstring list" where
  "surviving lower R =
    filter keep_word (case all_words lower R of None \<Rightarrow> [] | Some ws \<Rightarrow> ws)"

definition freq :: "(jstring \<Rightarrow> jstring) \<Rightarrow> comment list \<Rightarrow> jstring \<Rightarrow> nat" where
  "freq lower R w = count_list (surviving lower R) w"

definition max_freq :: "(jstring \<Rightarrow> jstring) \<Rightarrow> comment list \<Rightarrow> nat" where
  "max_freq lower R = Max (freq lower R ` set (surviving lower R))"

definition min_freq :: "(jstring \<Rightarrow> jstring) \<Rightarrow> comment list \<Rightarrow> nat" where
  "min_freq lower R = Min (freq lower R ` set (surviving lower R))"

text \<open>The words that name a property every object inherits.\<close>

definition inherited :: "jstring \<Rightarrow> bool" where
  "inherited w = (w \<in> set (map units function_names) \<or> w = units ''__proto__'')"

text \<open>
  The tally the specification describes: one count per word, in the order in which the
  words first occur.
\<close>

definition tally_step :: "(jstring \<times> nat) list \<Rightarrow> jstring \<Rightarrow> (jstring \<times> nat) list" where
  "tally_step counts w =
    (if keep_word w then
       (case map_of counts w of
          None \<Rightarrow> counts @ [(w, 1)]
        | Some n \<Rightarrow> modify w (\<lambda>n. n + 1) counts)
     else counts)"

text \<open>The properties of an object that holds the numbers of a tally.\<close>

definition numbered :: "(jstring \<times> nat) list \<Rightarrow> (jstring \<times> jstring count) list" where
  "numbered T = map (apsnd Num) T"

text \<open>A count raised by \<open>n\<close> occurrences, for an entry that may not be there yet.\<close>

definition add_count :: "nat option \<Rightarrow> nat \<Rightarrow> nat option" where
  "add_count v n = (if n = 0 then v else Some ((case v of None \<Rightarrow> 0 | Some a \<Rightarrow> a) + n))"

text \<open>The size the script computes from the largest, the smallest and the own frequency.\<close>

definition interpolated :: "nat \<Rightarrow> nat \<Rightarrow> nat \<Rightarrow> rat" where
  "interpolated mx mn n =
    (if mx = mn then 2
     else fadd 1 (fmul (fdiv (of_nat n - of_nat mn) (of_nat mx - of_nat mn)) 4))"

text \<open>The lower-casing of the platform, on texts of ASCII characters.\<close>

definition ascii_lower :: "jstring \<Rightarrow> jstring" where
  "ascii_lower t = map (\<lambda>u. if 65 \<le> u \<and> u \<le> 90 then u + 32 else u) t"

definition text_comment :: "string \<Rightarrow> comment" where
  "text_comment t =
    \<lparr>c_id = ''1'', c_text = Some (units t), c_sentiment = ''positive'', c_strength = ''weak'',
     c_topic = ''General'', c_timestamp = Number 5, c_emojis = []\<rparr>"

definition song_comment :: comment where
  "song_comment = text_comment ''Great video, great song! Great!! song amazing''"

section \<open>The retry loop\<close>

lemma attempt_fst: "fst (attempt e u s) = outcome e u (clock s)"
  by (simp add: attempt_def outcome_def Let_def split: sum.splits option.splits)

lemma attempt_clock: "clock (snd (attempt e u s)) = clock s + 1"
  by (simp add: attempt_def emit_def Let_def split: sum.splits option.splits)

lemma attempt_net: "filter is_net (trace (snd (attempt e u s))) = filter is_net (trace s) @ [Fetch u]"
  by (simp add: attempt_def emit_def is_net_def Let_def split: sum.splits option.splits)

lemma emit_clock: "clock (emit ev s) = clock s" by (simp add: emit_def)
lemma emit_trace: "trace (emit ev s) = trace s @ [ev]" by (simp add: emit_def)

lemma loop_success:
  assumes "i + k < n" "\<forall>j<k. isl (outcome e u (clock s + j))" "outcome e u (clock s + k) = Inr p"
  shows "\<exists>s'. fetchWithRetry_loop e u (int n) d (int i) s = (Inr p, s')
            \<and> clock s' = clock s + k + 1
            \<and> filter is_net (trace s') = filter is_net (trace s) @ backoff_schedule u d i k"
  using assms
proof (induction k arbitrary: i s)
  case 0
  obtain r s1 where a: "attempt e u s = (r, s1)" by (cases "attempt e u s")
  with attempt_fst[of e u s] 0 have r: "r = Inr p" by simp
  from a attempt_clock[of e u s] attempt_net[of e u s] have "clock s1 = clock s + 1" 
     "filter is_net (trace s1) = filter is_net (trace s) @ [Fetch u]" by simp_all
  with 0 a r show ?case by (simp add: backoff_schedule_def)
next
  case (Suc k)
  obtain r s1 where a: "attempt e u s = (r, s1)" by (cases "attempt e u s")
  from Suc.prems(2) have "isl (outcome e u (clock s))" by force
  with attempt_fst[of e u s] a have "isl r" by simp
  then obtain err where r: "r = Inl err" by (cases r) auto
  from a attempt_clock[of e u s] attempt_net[of e u s] have s1: "clock s1 = clock s + 1" 
     "filter is_net (trace s1) = filter is_net (trace s) @ [Fetch u]" by simp_all
  let ?s2 = "emit (Sleep (d * (1 + int i))) (emit (Warn ''Attempt failed'') s1)"
  have c2: "clock ?s2 = clock s + 1" using s1 by (simp add: emit_clock)
  have t2: "filter is_net (trace ?s2) = filter is_net (trace s) @ [Fetch u, Sleep (d * (1 + int i))]"
    using s1 by (simp add: emit_trace is_net_def)
  have "Suc i + k < n" using Suc.prems by simp
  moreover have "\<forall>j<k. isl (outcome e u (clock ?s2 + j))" using Suc.prems(2) c2 by auto
  moreover have "outcome e u (clock ?s2 + k) = Inr p" using Suc.prems(3) c2 by simp
  ultimately obtain s' where IH: "fetchWithRetry_loop e u (int n) d (int (Suc i)) ?s2 = (Inr p, s')"
     "clock s' = clock ?s2 + k + 1" 
     "filter is_net (trace s') = filter is_net (trace ?s2) @ backoff_schedule u d (Suc i) k"
    using Suc.IH[of "Suc i" ?s2] by blast
  have step: "fetchWithRetry_loop e u (int n) d (int i) s = fetchWithRetry_loop e u (int n) d (int (Suc i)) ?s2"
    using Suc.prems(1) a r by (subst fetchWithRetry_loop.simps) (simp add: Let_def add.commute)
  have sched: "backoff_schedule u d i (Suc k) = [Fetch u, Sleep (d * (1 + int i))] @ backoff_schedule u d (Suc i) k"
    by (simp add: backoff_schedule_def upt_rec[of i])
  show ?case using IH step c2 t2 sched by simp
qed

lemma loop_exhausted:
  assumes "i + k + 1 = n" "\<forall>j<k. isl (outcome e u (clock s + j))" "outcome e u (clock s + k) = Inl err"
  shows "\<exists>s'. fetchWithRetry_loop e u (int n) d (int i) s = (Inl (Exhausted (int n) err), s')
            \<and> clock s' = clock s + k + 1
            \<and> filter is_net (trace s') = filter is_net (trace s) @ backoff_schedule u d i k"
  using assms
proof (induction k arbitrary: i s)
  case 0
  obtain r s1 where a: "attempt e u s = (r, s1)" by (cases "attempt e u s")
  with attempt_fst[of e u s] 0 have r: "r = Inl err" by simp
  from a attempt_clock[of e u s] attempt_net[of e u s] have "clock s1 = clock s + 1" 
     "filter is_net (trace s1) = filter is_net (trace s) @ [Fetch u]" by simp_all
  with 0 a r show ?case 
    by (subst fetchWithRetry_loop.simps) (auto simp add: backoff_schedule_def Let_def emit_clock emit_trace is_net_def)
next
  case (Suc k)
  obtain r s1 where a: "attempt e u s = (r, s1)" by (cases "attempt e u s")
  from Suc.prems(2) have "isl (outcome e u (clock s))" by force
  with attempt_fst[of e u s] a have "isl r" by simp
  then obtain err0 where r: "r = Inl err0" by (cases r) auto
  from a attempt_clock[of e u s] attempt_net[of e u s] have s1: "clock s1 = clock s + 1" 
     "filter is_net (trace s1) = filter is_net (trace s) @ [Fetch u]" by simp_all
  let ?s2 = "emit (Sleep (d * (1 + int i))) (emit (Warn ''Attempt failed'') s1)"
  have c2: "clock ?s2 = clock s + 1" using s1 by (simp add: emit_clock)
  have t2: "filter is_net (trace ?s2) = filter is_net (trace s) @ [Fetch u, Sleep (d * (1 + int i))]"
    using s1 by (simp add: emit_trace is_net_def)
  have "Suc i + k + 1 = n" using Suc.prems by simp
  moreover have "\<forall>j<k. isl (outcome e u (clock ?s2 + j))" using Suc.prems(2) c2 by auto
  moreover have "outcome e u (clock ?s2 + k) = Inl err" using Suc.prems(3) c2 by simp
  ultimately obtain s' where IH: "fetchWithRetry_loop e u (int n) d (int (Suc i)) ?s2 = (Inl (Exhausted (int n) err), s')"
     "clock s' = clock ?s2 + k + 1" 
     "filter is_net (trace s') = filter is_net (trace ?s2) @ backoff_schedule u d (Suc i) k"
    using Suc.IH[of "Suc i" ?s2] by blast
  have step: "fetchWithRetry_loop e u (int n) d (int i) s = fetchWithRetry_loop e u (int n) d (int (Suc i)) ?s2"
    using Suc.prems(1) a r by (subst fetchWithRetry_loop.simps) (auto simp add: Let_def add.commute)
  have sched: "backoff_schedule u d i (Suc k) = [Fetch u, Sleep (d * (1 + int i))] @ backoff_schedule u d (Suc i) k"
    by (simp add: backoff_schedule_def upt_rec[of i])
  show ?case using IH step c2 t2 sched by simp
qed

section \<open>The page walks\<close>

lemma retry_loop_clock:
  "fetchWithRetry_loop e u n d i s = (r, s') \<Longrightarrow>
     clock s \<le> clock s' \<and> (i < n \<longrightarrow> clock s < clock s')"
proof (induction e u n d i s arbitrary: r s' rule: fetchWithRetry_loop.induct)
  case (1 e u retries delay i s)
  obtain a s1 where a: "attempt e u s = (a, s1)" by (cases "attempt e u s")
  with attempt_clock[of e u s] have c1: "clock s1 = clock s + 1" by simp
  show ?case
  proof (cases "i < retries")
    case False
    with "1.prems" show ?thesis by (simp add: fetchWithRetry_loop.simps[of e u retries delay i s])
  next
    case True
    show ?thesis
    proof (cases a)
      case (Inr p)
      with True a c1 "1.prems" show ?thesis
        by (simp add: fetchWithRetry_loop.simps[of e u retries delay i s])
    next
      case (Inl err)
      show ?thesis
      proof (cases "i < retries - 1")
        case False
        with True a c1 Inl "1.prems" show ?thesis
          by (auto simp add: fetchWithRetry_loop.simps[of e u retries delay i s] Let_def emit_clock)
      next
        case lt: True
        let ?s2 = "emit (Sleep (delay * (1 + i))) (emit (Warn ''Attempt failed'') s1)"
        have "fetchWithRetry_loop e u retries delay (i + 1) ?s2 = (r, s')"
          using True a Inl lt "1.prems"
          by (simp add: fetchWithRetry_loop.simps[of e u retries delay i s] Let_def)
        from "1.IH"[OF True a[symmetric] Inl refl lt this]
        have "clock ?s2 \<le> clock s'" by simp
        with c1 True show ?thesis by (simp add: emit_clock)
      qed
    qed
  qed
qed

lemma retry_loop_payload:
  "fetchWithRetry_loop e u n d i s = (Inr p, s') \<Longrightarrow> \<exists>m\<ge>clock s. outcome e u m = Inr p"
proof (induction e u n d i s arbitrary: s' rule: fetchWithRetry_loop.induct)
  case (1 e u retries delay i s)
  obtain a s1 where a: "attempt e u s = (a, s1)" by (cases "attempt e u s")
  with attempt_clock[of e u s] have c1: "clock s1 = clock s + 1" by simp
  from a attempt_fst[of e u s] have o: "outcome e u (clock s) = a" by simp
  have True: "i < retries" using "1.prems"
    by (cases "i < retries") (simp_all add: fetchWithRetry_loop.simps[of e u retries delay i s])
  show ?case
  proof (cases a)
    case (Inr q)
    with True a "1.prems" have "q = p"
      by (simp add: fetchWithRetry_loop.simps[of e u retries delay i s])
    with o Inr show ?thesis by auto
  next
    case (Inl err)
    have lt: "i < retries - 1" using True a Inl "1.prems"
      by (cases "i < retries - 1")
         (simp_all add: fetchWithRetry_loop.simps[of e u retries delay i s] Let_def)
    let ?s2 = "emit (Sleep (delay * (1 + i))) (emit (Warn ''Attempt failed'') s1)"
    have "fetchWithRetry_loop e u retries delay (i + 1) ?s2 = (Inr p, s')"
      using True a Inl lt "1.prems"
      by (simp add: fetchWithRetry_loop.simps[of e u retries delay i s] Let_def)
    from "1.IH"[OF True a[symmetric] Inl refl lt this]
    obtain m where "m \<ge> clock ?s2" "outcome e u m = Inr p" by blast
    with c1 show ?thesis by (auto simp: emit_clock intro!: exI[of _ m])
  qed
qed

lemma fetch3_clock: "fetchWithRetry e u 3 d s = (r, s') \<Longrightarrow> clock s < clock s'"
  using retry_loop_clock[of e u 3 d 0 s r s'] by (simp add: fetchWithRetry_def)

lemma fetch3_payload:
  "fetchWithRetry e u 3 d s = (Inr p, s') \<Longrightarrow> \<exists>m\<ge>clock s. outcome e u m = Inr p"
  using retry_loop_payload[of e u 3 d 0 s p s'] by (simp add: fetchWithRetry_def)

lemma fetchReplies_loop_returns:
  assumes "last_page_from e N"
  shows "\<exists>r. fetchReplies_loop e pid key tok rs s = Some r"
proof (induction "N - clock s" arbitrary: tok rs s rule: less_induct)
  case less
  obtain a s1 where f: "fetchWithRetry e (replies_url pid key tok) 3 1000 s = (a, s1)"
    by (cases "fetchWithRetry e (replies_url pid key tok) 3 1000 s")
  from fetch3_clock[OF f] have c: "clock s < clock s1" .
  show ?case
  proof (cases a)
    case (Inl err)
    with f show ?thesis by (subst fetchReplies_loop.simps) simp
  next
    case (Inr data)
    show ?thesis
    proof (cases "nextPageToken data = []")
      case True
      with f Inr show ?thesis by (subst fetchReplies_loop.simps) simp
    next
      case False
      from fetch3_payload f Inr obtain m where m: "m \<ge> clock s" "outcome e (replies_url pid key tok) m = Inr data"
        by blast
      with False assms have "m < N" unfolding last_page_from_def by (meson not_le)
      with m c have "N - clock s1 < N - clock s" by simp
      from less[OF this] obtain r where
        "fetchReplies_loop e pid key (nextPageToken data) (rs @ reply_records e (items data)) s1 = Some r"
        by blast
      with f Inr False show ?thesis by (subst fetchReplies_loop.simps) (simp, metis prod_cases3)
    qed
  qed
qed

lemma fetchReplies_loop_clock:
  assumes "fetchReplies_loop e pid key tok rs s = Some r"
  shows "clock s \<le> clock (snd (snd r))"
proof (rule fetchReplies_loop.raw_induct
         [where P = "\<lambda>e pid key tok rs s r. clock s \<le> clock (snd (snd r))", OF _ assms])
  fix loop e pid key tok rs s r
  assume IH: "\<And>e pid key tok rs s r. loop e pid key tok rs s = Some r \<Longrightarrow> clock s \<le> clock (snd (snd r))"
    and step: "(case fetchWithRetry e (replies_url pid key tok) 3 1000 s of
       (Inl err, s1) \<Rightarrow> Some (Some err, rs, s1)
     | (Inr data, s1) \<Rightarrow>
         if nextPageToken data \<noteq> []
         then loop e pid key (nextPageToken data) (rs @ reply_records e (items data)) s1
         else Some (None, rs @ reply_records e (items data), s1)) = Some r"
  obtain a s1 where f: "fetchWithRetry e (replies_url pid key tok) 3 1000 s = (a, s1)"
    by (cases "fetchWithRetry e (replies_url pid key tok) 3 1000 s")
  from fetch3_clock[OF f] have c: "clock s < clock s1" .
  from step f c show "clock s \<le> clock (snd (snd r))"
    by (auto split: sum.splits if_splits dest!: IH)
qed

lemma fetchReplies_returns:
  "last_page_from e N \<Longrightarrow> \<exists>r. fetchReplies e pid key s = Some r"
  using fetchReplies_loop_returns[of e N pid key "[]" "[]" s]
  by (auto simp: fetchReplies_def split: option.splits)

lemma fetchReplies_clock:
  "fetchReplies e pid key s = Some (rs, s') \<Longrightarrow> clock s \<le> clock s'"
  using fetchReplies_loop_clock[of e pid key "[]" "[]" s]
  by (auto simp: fetchReplies_def emit_clock split: option.splits)

lemma process_items_returns:
  "last_page_from e N \<Longrightarrow> \<exists>r. process_items e key its cs s = Some r"
proof (induction its arbitrary: cs s)
  case Nil
  then show ?case by simp
next
  case (Cons it its)
  show ?case
  proof (cases "snippet it")
    case None
    with Cons show ?thesis by simp
  next
    case (Some isn)
    show ?thesis
    proof (cases "totalReplyCount isn > 0")
      case False
      with Some Cons show ?thesis by (simp add: Let_def)
    next
      case True
      show ?thesis
      proof (cases "topLevelComment isn")
        case None
        with Some True show ?thesis by (simp add: Let_def)
      next
        case (Some tlc)
        from fetchReplies_returns[OF Cons.prems, of "tlc_id tlc" key s]
        obtain rs s1 where "fetchReplies e (tlc_id tlc) key s = Some (rs, s1)" by auto
        with \<open>snippet it = Some isn\<close> True Some Cons show ?thesis
          by (simp add: Let_def)
      qed
    qed
  qed
qed

lemma process_items_clock:
  "process_items e key its cs s = Some (x, cs', s') \<Longrightarrow> clock s \<le> clock s'"
proof (induction its arbitrary: cs s)
  case Nil
  then show ?case by simp
next
  case (Cons it its)
  then show ?case
    by (fastforce simp: Let_def split: option.splits if_splits dest!: fetchReplies_clock)
qed

lemma fetchAllComments_loop_returns:
  assumes "last_page_from e N"
  shows "\<exists>r. fetchAllComments_loop e vid key tok cs s = Some r"
proof (induction "N - clock s" arbitrary: tok cs s rule: less_induct)
  case less
  obtain a s1 where f: "fetchWithRetry e (threads_url vid key tok) 3 1000 s = (a, s1)"
    by (cases "fetchWithRetry e (threads_url vid key tok) 3 1000 s")
  from fetch3_clock[OF f] have c: "clock s < clock s1" .
  show ?case
  proof (cases a)
    case (Inl err)
    with f show ?thesis by (subst fetchAllComments_loop.simps) simp
  next
    case (Inr data)
    from process_items_returns[OF assms, of key "items data" cs s1]
    obtain x cs1 s2 where p: "process_items e key (items data) cs s1 = Some (x, cs1, s2)"
      by (metis prod_cases3)
    from process_items_clock[OF p] have c2: "clock s1 \<le> clock s2" .
    show ?thesis
    proof (cases x)
      case (Some err)
      with f Inr p show ?thesis by (subst fetchAllComments_loop.simps) simp
    next
      case None
      let ?s3 = "emit (Sleep 200) (emit (Progress (length cs1)) s2)"
      show ?thesis
      proof (cases "nextPageToken data = []")
        case True
        with f Inr p None show ?thesis by (subst fetchAllComments_loop.simps) (simp add: Let_def)
      next
        case False
        from fetch3_payload f Inr obtain m where
          m: "m \<ge> clock s" "outcome e (threads_url vid key tok) m = Inr data" by blast
        with False assms have "m < N" unfolding last_page_from_def by (meson not_le)
        with m c c2 have "N - clock ?s3 < N - clock s" by (simp add: emit_clock)
        from less[OF this] obtain r where
          "fetchAllComments_loop e vid key (nextPageToken data) cs1 ?s3 = Some r" by blast
        with f Inr p None False show ?thesis
          by (subst fetchAllComments_loop.simps) (simp add: Let_def)
      qed
    qed
  qed
qed

lemma cyclic_attempt:
  "attempt cyclic_env u s =
     (Inr \<lparr>error_message = [], items = [], nextPageToken = ''a''\<rparr>, emit (Fetch u) (s\<lparr>clock := clock s + 1\<rparr>))"
  by (simp add: attempt_def cyclic_env_def)

lemma cyclic_fetch:
  "fetchWithRetry cyclic_env u 3 1000 s =
     (Inr \<lparr>error_message = [], items = [], nextPageToken = ''a''\<rparr>, emit (Fetch u) (s\<lparr>clock := clock s + 1\<rparr>))"
  by (simp add: fetchWithRetry_def cyclic_attempt)

lemma cyclic_loop_aux:
  assumes "fetchAllComments_loop e v k tok cs s = Some r"
  shows "e \<noteq> cyclic_env"
proof (rule fetchAllComments_loop.raw_induct
         [where P = "\<lambda>e v k tok cs s r. e \<noteq> cyclic_env", OF _ assms])
  fix loop e v k tok cs s r
  assume IH: "\<And>e v k tok cs s r. loop e v k tok cs s = Some r \<Longrightarrow> e \<noteq> cyclic_env"
    and step: "(case fetchWithRetry e (threads_url v k tok) 3 1000 s of
      (Inl err, s1) \<Rightarrow> Some (Inl err, s1)
      | (Inr data, s1) \<Rightarrow>
          case process_items e k (items data) cs s1 of
          None \<Rightarrow> None
          | Some (None, comments1, s2) \<Rightarrow>
              let s3 = emit (Sleep 200) (emit (Progress (length comments1)) s2)
              in if nextPageToken data \<noteq> []
                 then loop e v k (nextPageToken data) comments1 s3
                 else Some (Inr comments1, s3)
          | Some (Some err, comments1, s2) \<Rightarrow> Some (Inl err, s2)) = Some r"
  show "e \<noteq> cyclic_env"
  proof
    assume e: "e = cyclic_env"
    from step show False unfolding e
      by (auto simp: cyclic_fetch Let_def dest: IH split: option.splits prod.splits sum.splits if_splits)
  qed
qed

section \<open>Claims about the resilient fetcher\<close>

lemma failed_outcome:
  "failed_answer e (fetch e n u) \<Longrightarrow> outcome e u n = Inl (failure_reason (fetch e n u))"
  by (auto simp: failed_answer_def failure_reason_def parsed_body_def outcome_def attempt_def
        Let_def split: sum.splits option.splits if_splits)

lemma good_outcome:
  "good_answer e (fetch e n u) p \<Longrightarrow> outcome e u n = Inr p"
  by (auto simp: good_answer_def parsed_body_def outcome_def attempt_def
        Let_def split: sum.splits option.splits if_splits)

text \<open>
  Claim C4, as amended. For the fetcher of the background script, every address, at
  least one allowed attempt and every base delay. When the source fails all the allowed
  attempts (a rejected request, a body that does not parse, or a status that is not a
  success with an error message of the service), the fetcher has sent exactly that many
  requests, has waited between them the base delay times one, two, ... and fails with the
  exhaustion error, which carries the number of allowed attempts and the reason of the
  last failure (the address is not part of it). When the source fails the first \<open>k\<close>
  attempts and answers the next one with a success status and a body that parses, that
  payload is returned after the \<open>k\<close> waits. A response whose status is not a success and
  whose body is empty, or parses without an error message, is in neither hypothesis.
\<close>

theorem retry_policy:
  assumes "1 \<le> n"
  shows "(source_fails e u (clock s) n \<longrightarrow>
            (\<exists>s'. fetchWithRetry e u (int n) d s =
                     (Inl (Exhausted (int n) (failure_reason (fetch e (clock s + (n - 1)) u))), s')
                 \<and> clock s' = clock s + n
                 \<and> filter is_net (trace s') = filter is_net (trace s) @ backoff_schedule u d 0 (n - 1)))
       \<and> (\<forall>k<n. \<forall>p. source_fails e u (clock s) k \<and> good_answer e (fetch e (clock s + k) u) p \<longrightarrow>
            (\<exists>s'. fetchWithRetry e u (int n) d s = (Inr p, s')
                 \<and> clock s' = clock s + (k + 1)
                 \<and> filter is_net (trace s') = filter is_net (trace s) @ backoff_schedule u d 0 k))"
proof (intro conjI impI allI)
  assume "source_fails e u (clock s) n"
  then have f: "\<forall>j<n. failed_answer e (fetch e (clock s + j) u)" by (simp add: source_fails_def)
  then have all: "\<forall>j<n. isl (outcome e u (clock s + j))" by (simp add: failed_outcome)
  have "n - 1 < n" using assms by simp
  with f have "failed_answer e (fetch e (clock s + (n - 1)) u)" by blast
  then have last: "outcome e u (clock s + (n - 1)) = Inl (failure_reason (fetch e (clock s + (n - 1)) u))"
    by (rule failed_outcome)
  have "\<forall>j<n - 1. isl (outcome e u (clock s + j))" using all by simp
  from loop_exhausted[of 0 "n - 1" n e u s, OF _ this last] assms
  show "\<exists>s'. fetchWithRetry e u (int n) d s =
                (Inl (Exhausted (int n) (failure_reason (fetch e (clock s + (n - 1)) u))), s')
            \<and> clock s' = clock s + n
            \<and> filter is_net (trace s') = filter is_net (trace s) @ backoff_schedule u d 0 (n - 1)"
    by (simp add: fetchWithRetry_def)
next
  fix k p
  assume "k < n" and h: "source_fails e u (clock s) k \<and> good_answer e (fetch e (clock s + k) u) p"
  then have "0 + k < n" "\<forall>j<k. isl (outcome e u (clock s + j))" "outcome e u (clock s + k) = Inr p"
    by (simp_all add: source_fails_def failed_outcome good_outcome)
  from loop_success[OF this, of d]
  show "\<exists>s'. fetchWithRetry e u (int n) d s = (Inr p, s')
            \<and> clock s' = clock s + (k + 1)
            \<and> filter is_net (trace s') = filter is_net (trace s) @ backoff_schedule u d 0 k"
    by (simp add: fetchWithRetry_def)
qed

lemma refusing_fails: "failed_answer refusing_env (fetch refusing_env n u)"
  by (simp add: failed_answer_def parsed_body_def refusing_env_def)

lemma recovering_fails: "n < 2 \<Longrightarrow> failed_answer recovering_env (fetch recovering_env n u)"
  by (simp add: failed_answer_def parsed_body_def recovering_env_def)

theorem retry_policy_witness:
  "(1::nat) \<le> 3 \<and> source_fails refusing_env (''u'', []) (clock st0) 3 \<and>
   (\<exists>s'. fetchWithRetry refusing_env (''u'', []) 3 1000 st0 =
            (Inl (Exhausted 3 (HttpError 403 ''quota'')), s')
        \<and> clock s' = 3
        \<and> filter is_net (trace s') =
            [Fetch (''u'', []), Sleep 1000, Fetch (''u'', []), Sleep 2000, Fetch (''u'', [])]) \<and>
   source_fails recovering_env (''u'', []) (clock st0) 2 \<and>
   good_answer recovering_env (fetch recovering_env 2 (''u'', []))
     \<lparr>error_message = [], items = [], nextPageToken = []\<rparr> \<and>
   (\<exists>s'. fetchWithRetry recovering_env (''u'', []) 3 1000 st0 =
            (Inr \<lparr>error_message = [], items = [], nextPageToken = []\<rparr>, s')
        \<and> clock s' = 3
        \<and> filter is_net (trace s') =
            [Fetch (''u'', []), Sleep 1000, Fetch (''u'', []), Sleep 2000, Fetch (''u'', [])])"
proof -
  have d: "source_fails refusing_env (''u'', []) (clock st0) 3"
    by (simp add: source_fails_def refusing_fails)
  have f: "source_fails recovering_env (''u'', []) (clock st0) 2"
    by (simp add: source_fails_def recovering_fails st0_def)
  have g: "good_answer recovering_env (fetch recovering_env 2 (''u'', []))
     \<lparr>error_message = [], items = [], nextPageToken = []\<rparr>"
    by (simp add: good_answer_def parsed_body_def recovering_env_def)
  have o: "good_answer recovering_env (fetch recovering_env (clock st0 + 2) (''u'', []))
     \<lparr>error_message = [], items = [], nextPageToken = []\<rparr>"
    by (simp add: good_answer_def parsed_body_def recovering_env_def st0_def)
  have r: "failure_reason (fetch refusing_env (clock st0 + (3 - 1)) (''u'', [])) = HttpError 403 ''quota''"
    by (simp add: failure_reason_def refusing_env_def st0_def)
  have sched: "backoff_schedule (''u'', []) 1000 0 2 =
      [Fetch (''u'', []), Sleep 1000, Fetch (''u'', []), Sleep 2000, Fetch (''u'', [])]"
    by (simp add: backoff_schedule_def upt_rec)
  from retry_policy[of 3 refusing_env "(''u'', [])" st0 1000] d sched r
  have 1: "\<exists>s'. fetchWithRetry refusing_env (''u'', []) 3 1000 st0 =
            (Inl (Exhausted 3 (HttpError 403 ''quota'')), s')
        \<and> clock s' = 3
        \<and> filter is_net (trace s') =
            [Fetch (''u'', []), Sleep 1000, Fetch (''u'', []), Sleep 2000, Fetch (''u'', [])]"
    by (simp add: st0_def)
  have le: "(1::nat) \<le> 3" "(2::nat) < 3" by simp_all
  from retry_policy[where n = 3 and e = recovering_env and u = "(''u'', [])" and s = st0 and d = 1000,
         OF le(1), THEN conjunct2, rule_format, OF le(2) conjI[OF f o]] sched
  have 2: "\<exists>s'. fetchWithRetry recovering_env (''u'', []) 3 1000 st0 =
            (Inr \<lparr>error_message = [], items = [], nextPageToken = []\<rparr>, s')
        \<and> clock s' = 3
        \<and> filter is_net (trace s') =
            [Fetch (''u'', []), Sleep 1000, Fetch (''u'', []), Sleep 2000, Fetch (''u'', [])]"
    by (simp add: st0_def)
  from d f g 1 2 show ?thesis by simp
qed

text \<open>
  Claim C4 as it is written fails. The exhaustion error of the background script is the
  same for two different addresses, so it does not carry the address; and the older
  copy of the fetcher waits the base delay before every retry and reports the number of
  attempts alone.
\<close>

theorem retry_error_counterexample:
  "fst (fetchWithRetry down_env (''a'', []) 3 1000 st0) =
     fst (fetchWithRetry down_env (''b'', []) 3 1000 st0)
   \<and> fetchWithRetry_old down_env (''a'', []) 3 1000 st0 =
       (Inl (ExhaustedPlain 3),
        \<lparr>clock = 3,
         trace = [Fetch (''a'', []), Warn ''Attempt failed'', Sleep 1000,
                  Fetch (''a'', []), Warn ''Attempt failed'', Sleep 1000,
                  Fetch (''a'', []), Warn ''Attempt failed'',
                  Err ''FetchWithRetry failed all attempts'']\<rparr>)"
  by (simp add: fetchWithRetry_def fetchWithRetry_old_def attempt_def attempt_old_def
        down_env_def st0_def emit_def)

text \<open>
  The response left out above: against a source that answers every request with the
  status 500 and an empty body, the fetcher sends one request and returns the empty
  object as the payload.
\<close>

lemma non_success_returned:
  "\<not> failed_answer http500_env (fetch http500_env n u) \<and>
   fetchWithRetry http500_env (''u'', []) 3 1000 st0 =
     (Inr \<lparr>error_message = [], items = [], nextPageToken = []\<rparr>,
      \<lparr>clock = 1, trace = [Fetch (''u'', []), Warn ''HTTP error on attempt'']\<rparr>)"
  by (simp add: failed_answer_def parsed_body_def fetchWithRetry_def attempt_def
        http500_env_def st0_def emit_def)

text \<open>
  Claim C10. With \<^verbatim>\<open>retries\<close> zero or negative the loop body never runs: the state is
  unchanged, so no request was sent, and the error is the one thrown after the loop,
  which is not the exhaustion error with a last failure: the unexpected-end error in the
  background script, the plain exhaustion error in the older copy.
\<close>

theorem no_attempts:
  "retries \<le> 0 \<Longrightarrow>
     fetchWithRetry e u retries d s = (Inl UnexpectedEnd, s) \<and>
     fetchWithRetry_old e u retries d s = (Inl (ExhaustedPlain retries), s)"
  by (simp add: fetchWithRetry_def fetchWithRetry_old_def)

theorem no_attempts_witness:
  "(0::int) \<le> 0 \<and>
   fetchWithRetry cyclic_env (''u'', []) 0 1000 st0 = (Inl UnexpectedEnd, st0) \<and>
   fetchWithRetry_old cyclic_env (''u'', []) 0 1000 st0 = (Inl (ExhaustedPlain 0), st0)"
  using no_attempts[of 0 cyclic_env "(''u'', [])" 1000 st0] by simp

section \<open>Claims about the page walker\<close>

lemma three_pages_outcome:
  "outcome three_pages_env u n =
     Inr \<lparr>error_message = [], items = [],
          nextPageToken = (if n = 0 then ''b'' else if n = 1 then ''c'' else [])\<rparr>"
  by (simp add: outcome_def attempt_def three_pages_env_def)

text \<open>
  Claim C1, as amended. Both walks return, with a list or with a failure, whenever the
  source stops sending continuation cursors: if from some request on no accepted response
  carries a cursor, the walk over the threads and every walk over replies end. Each loop
  ends at the page whose response carries no cursor: the walk over the threads returns
  the records collected so far once the items of that page are processed, the walk over
  replies returns at once.
\<close>

theorem walk_terminates:
  "(last_page_from e N \<longrightarrow>
      (\<exists>r. fetchAllComments e vid key s = Some r) \<and> (\<exists>r. fetchReplies e pid key s = Some r)) \<and>
   (fetchWithRetry e (threads_url vid key tok) 3 1000 s = (Inr data, t) \<and>
    nextPageToken data = [] \<and> process_items e key (items data) cs t = Some (None, cs', t') \<longrightarrow>
      fetchAllComments_loop e vid key tok cs s =
        Some (Inr cs', emit (Sleep 200) (emit (Progress (length cs')) t'))) \<and>
   (fetchWithRetry e (replies_url pid key tok) 3 1000 s = (Inr data, t) \<and>
    nextPageToken data = [] \<longrightarrow>
      fetchReplies_loop e pid key tok rs s = Some (None, rs @ reply_records e (items data), t))"
proof (intro conjI impI)
  assume h: "last_page_from e N"
  from fetchAllComments_loop_returns[OF h, of vid key "[]" "[]" s]
  show "\<exists>r. fetchAllComments e vid key s = Some r"
    by (auto simp: fetchAllComments_def split: option.splits sum.splits)
  from fetchReplies_returns[OF h] show "\<exists>r. fetchReplies e pid key s = Some r" .
next
  assume "fetchWithRetry e (threads_url vid key tok) 3 1000 s = (Inr data, t) \<and>
    nextPageToken data = [] \<and> process_items e key (items data) cs t = Some (None, cs', t')"
  then show "fetchAllComments_loop e vid key tok cs s =
        Some (Inr cs', emit (Sleep 200) (emit (Progress (length cs')) t'))"
    by (subst fetchAllComments_loop.simps) (simp add: Let_def)
next
  assume "fetchWithRetry e (replies_url pid key tok) 3 1000 s = (Inr data, t) \<and>
    nextPageToken data = []"
  then show "fetchReplies_loop e pid key tok rs s = Some (None, rs @ reply_records e (items data), t)"
    by (subst fetchReplies_loop.simps) simp
qed

theorem walk_terminates_witness:
  "last_page_from three_pages_env 2 \<and>
   (\<exists>r. fetchAllComments three_pages_env ''X'' ''k'' st0 = Some r) \<and>
   (\<exists>r. fetchReplies three_pages_env ''c1'' ''k'' st0 = Some r) \<and>
   fetchAllComments three_pages_env ''X'' ''k'' st0 =
     Some (Inr [],
           \<lparr>clock = 3,
            trace = [Fetch (threads_url ''X'' ''k'' []), Progress 0, Sleep 200,
                     Fetch (threads_url ''X'' ''k'' ''b''), Progress 0, Sleep 200,
                     Fetch (threads_url ''X'' ''k'' ''c''), Progress 0, Sleep 200]\<rparr>) \<and>
   fetchWithRetry three_pages_env (threads_url ''X'' ''k'' ''c'') 3 1000 \<lparr>clock = 2, trace = []\<rparr> =
     (Inr \<lparr>error_message = [], items = [], nextPageToken = []\<rparr>,
      \<lparr>clock = 3, trace = [Fetch (threads_url ''X'' ''k'' ''c'')]\<rparr>) \<and>
   fetchAllComments_loop three_pages_env ''X'' ''k'' ''c'' [] \<lparr>clock = 2, trace = []\<rparr> =
     Some (Inr [],
           \<lparr>clock = 3,
            trace = [Fetch (threads_url ''X'' ''k'' ''c''), Progress 0, Sleep 200]\<rparr>)"
proof -
  have h: "last_page_from three_pages_env 2"
    by (auto simp: last_page_from_def three_pages_outcome)
  have f: "fetchWithRetry three_pages_env (threads_url ''X'' ''k'' ''c'') 3 1000
             \<lparr>clock = 2, trace = []\<rparr> =
     (Inr \<lparr>error_message = [], items = [], nextPageToken = []\<rparr>,
      \<lparr>clock = 3, trace = [Fetch (threads_url ''X'' ''k'' ''c'')]\<rparr>)"
    by (simp add: fetchWithRetry_def attempt_def three_pages_env_def emit_def)
  have w: "fetchAllComments three_pages_env ''X'' ''k'' st0 =
     Some (Inr [],
           \<lparr>clock = 3,
            trace = [Fetch (threads_url ''X'' ''k'' []), Progress 0, Sleep 200,
                     Fetch (threads_url ''X'' ''k'' ''b''), Progress 0, Sleep 200,
                     Fetch (threads_url ''X'' ''k'' ''c''), Progress 0, Sleep 200]\<rparr>)"
    by code_simp
  note t = walk_terminates[where e = three_pages_env and N = 2 and vid = "''X''" and key = "''k''"
      and pid = "''c1''" and tok = "''c''" and cs = "[]" and cs' = "[]"
      and data = "\<lparr>error_message = [], items = [], nextPageToken = []\<rparr>"
      and t = "\<lparr>clock = 3, trace = [Fetch (threads_url ''X'' ''k'' ''c'')]\<rparr>"
      and t' = "\<lparr>clock = 3, trace = [Fetch (threads_url ''X'' ''k'' ''c'')]\<rparr>"]
  from t[where s = st0] h
  have a: "(\<exists>r. fetchAllComments three_pages_env ''X'' ''k'' st0 = Some r) \<and>
           (\<exists>r. fetchReplies three_pages_env ''c1'' ''k'' st0 = Some r)" by blast
  from t[where s = "\<lparr>clock = 2, trace = []\<rparr>"] f
  have b: "fetchAllComments_loop three_pages_env ''X'' ''k'' ''c'' [] \<lparr>clock = 2, trace = []\<rparr> =
     Some (Inr [],
           \<lparr>clock = 3,
            trace = [Fetch (threads_url ''X'' ''k'' ''c''), Progress 0, Sleep 200]\<rparr>)"
    by (simp add: emit_def)
  from h a w f b show ?thesis by blast
qed

text \<open>
  Claim C1 as it is written fails: against a source that repeats the cursor \<open>a\<close> on every
  page the walk over the threads never returns.
\<close>

theorem repeated_cursor_counterexample:
  "fetchAllComments cyclic_env ''v'' ''k'' st0 = None"
proof (cases "fetchAllComments_loop cyclic_env ''v'' ''k'' [] [] st0")
  case None
  then show ?thesis by (simp add: fetchAllComments_def)
next
  case (Some r)
  then show ?thesis using cyclic_loop_aux by blast
qed

section \<open>Claims about failure isolation\<close>

lemma process_items_error:
  "process_items e key its cs s = Some (Some err, cs', s') \<Longrightarrow> err = TypeError"
proof (induction its arbitrary: cs s)
  case Nil
  then show ?case by simp
next
  case (Cons it its)
  then show ?case
    by (auto simp: Let_def split: option.splits if_splits)
qed

lemma replies_of_Cons: "replies_of e (p # ps) = reply_records e (items p) @ replies_of e ps"
  by (simp add: replies_of_def)

lemma reply_pages_fail:
  "reply_pages e pid key tok ps s = Some (tok', sp) \<Longrightarrow>
   fetchWithRetry e (replies_url pid key tok') 3 1000 sp = (Inl err, t) \<Longrightarrow>
     fetchReplies_loop e pid key tok rs s = Some (Some err, rs @ replies_of e ps, t)"
proof (induction ps arbitrary: tok rs s)
  case Nil
  then show ?case
    by (subst fetchReplies_loop.simps) (simp add: replies_of_def)
next
  case (Cons p ps)
  obtain a sa where f: "fetchWithRetry e (replies_url pid key tok) 3 1000 s = (a, sa)"
    by (cases "fetchWithRetry e (replies_url pid key tok) 3 1000 s")
  from Cons.prems(1) f have a: "a = Inr p" and n: "nextPageToken p \<noteq> []"
    and r: "reply_pages e pid key (nextPageToken p) ps sa = Some (tok', sp)"
    by (auto split: sum.splits if_splits)
  from Cons.IH[OF r Cons.prems(2), of "rs @ reply_records e (items p)"]
  have "fetchReplies_loop e pid key (nextPageToken p) (rs @ reply_records e (items p)) sa =
          Some (Some err, rs @ replies_of e (p # ps), t)"
    by (simp add: replies_of_Cons)
  with f a n show ?case
    by (subst fetchReplies_loop.simps) simp
qed

lemma fetchReplies_loop_failed:
  assumes "fetchReplies_loop e pid key tok rs s = Some r"
  shows "\<forall>err rs' t. r = (Some err, rs', t) \<longrightarrow>
           (\<exists>ps tok' sp. reply_pages e pid key tok ps s = Some (tok', sp) \<and>
              fetchWithRetry e (replies_url pid key tok') 3 1000 sp = (Inl err, t) \<and>
              rs' = rs @ replies_of e ps)"
proof (rule fetchReplies_loop.raw_induct
         [where P = "\<lambda>e pid key tok rs s r. \<forall>err rs' t. r = (Some err, rs', t) \<longrightarrow>
           (\<exists>ps tok' sp. reply_pages e pid key tok ps s = Some (tok', sp) \<and>
              fetchWithRetry e (replies_url pid key tok') 3 1000 sp = (Inl err, t) \<and>
              rs' = rs @ replies_of e ps)", OF _ assms])
  fix loop e pid key tok rs s r
  assume IH: "\<And>e pid key tok rs s r. loop e pid key tok rs s = Some r \<Longrightarrow>
         \<forall>err rs' t. r = (Some err, rs', t) \<longrightarrow>
           (\<exists>ps tok' sp. reply_pages e pid key tok ps s = Some (tok', sp) \<and>
              fetchWithRetry e (replies_url pid key tok') 3 1000 sp = (Inl err, t) \<and>
              rs' = rs @ replies_of e ps)"
    and step: "(case fetchWithRetry e (replies_url pid key tok) 3 1000 s of
       (Inl err, s1) \<Rightarrow> Some (Some err, rs, s1)
     | (Inr data, s1) \<Rightarrow>
         if nextPageToken data \<noteq> []
         then loop e pid key (nextPageToken data) (rs @ reply_records e (items data)) s1
         else Some (None, rs @ reply_records e (items data), s1)) = Some r"
  obtain a sa where f: "fetchWithRetry e (replies_url pid key tok) 3 1000 s = (a, sa)"
    by (cases "fetchWithRetry e (replies_url pid key tok) 3 1000 s")
  show "\<forall>err rs' t. r = (Some err, rs', t) \<longrightarrow>
           (\<exists>ps tok' sp. reply_pages e pid key tok ps s = Some (tok', sp) \<and>
              fetchWithRetry e (replies_url pid key tok') 3 1000 sp = (Inl err, t) \<and>
              rs' = rs @ replies_of e ps)"
  proof (intro allI impI)
    fix err rs' t assume r: "r = (Some err, rs', t)"
    show "\<exists>ps tok' sp. reply_pages e pid key tok ps s = Some (tok', sp) \<and>
              fetchWithRetry e (replies_url pid key tok') 3 1000 sp = (Inl err, t) \<and>
              rs' = rs @ replies_of e ps"
    proof (cases a)
      case (Inl err0)
      with step f r have "err0 = err" "rs' = rs" "sa = t" by simp_all
      with f Inl have "reply_pages e pid key tok [] s = Some (tok, s) \<and>
              fetchWithRetry e (replies_url pid key tok) 3 1000 s = (Inl err, t) \<and>
              rs' = rs @ replies_of e []"
        by (simp add: replies_of_def)
      then show ?thesis by blast
    next
      case (Inr data)
      show ?thesis
      proof (cases "nextPageToken data \<noteq> []")
        case False
        with step f Inr r show ?thesis by simp
      next
        case True
        with step f Inr have
          "loop e pid key (nextPageToken data) (rs @ reply_records e (items data)) sa = Some r"
          by simp
        from IH[OF this] r obtain ps tok' sp where
          p: "reply_pages e pid key (nextPageToken data) ps sa = Some (tok', sp)"
          and g: "fetchWithRetry e (replies_url pid key tok') 3 1000 sp = (Inl err, t)"
          and e: "rs' = (rs @ reply_records e (items data)) @ replies_of e ps"
          by blast
        from p f Inr True have "reply_pages e pid key tok (data # ps) s = Some (tok', sp)"
          by simp
        moreover from e have "rs' = rs @ replies_of e (data # ps)"
          by (simp add: replies_of_Cons)
        ultimately show ?thesis using g by blast
      qed
    qed
  qed
qed

text \<open>
  Claim C5, as amended. When the walk over the replies of an item has fetched the pages
  \<open>ps\<close> and the fetch of the next page fails, the failure is caught and logged, the item
  contributes the replies of the pages \<open>ps\<close>, and the loop over the items goes on with the
  next item. Every walk over replies that fails is of this form: what it returns are the
  replies of the pages fetched before the failure. When the first page of replies fails
  the item contributes no replies. The loop over the items of a page never ends with a
  fetch failure: the only error it can end with is the one thrown for an item that has a
  reply count and no top-level comment.
\<close>

theorem nested_failure_isolated:
  "(snippet it = Some isn \<and> totalReplyCount isn > 0 \<and> topLevelComment isn = Some tlc \<and>
    reply_pages e (tlc_id tlc) key [] ps s = Some (tok, sp) \<and>
    fetchWithRetry e (replies_url (tlc_id tlc) key tok) 3 1000 sp = (Inl err, t) \<longrightarrow>
      fetchReplies e (tlc_id tlc) key s =
        Some (replies_of e ps, emit (Err ''Error fetching replies'') t) \<and>
      process_items e key (it # rest) cs s =
        process_items e key rest (push_top e isn cs @ replies_of e ps)
          (emit (Err ''Error fetching replies'') t))
   \<and> (fetchReplies_loop e pid key [] [] s = Some (Some err, rs, t) \<longrightarrow>
        (\<exists>qs tok' sq. reply_pages e pid key [] qs s = Some (tok', sq) \<and>
           fetchWithRetry e (replies_url pid key tok') 3 1000 sq = (Inl err, t) \<and>
           rs = replies_of e qs))
   \<and> (fetchWithRetry e (replies_url pid key []) 3 1000 s = (Inl err, t) \<longrightarrow>
        fetchReplies e pid key s = Some ([], emit (Err ''Error fetching replies'') t))
   \<and> (process_items e key its cs s = Some (Some err, cs', s') \<longrightarrow> err = TypeError)"
proof (intro conjI impI)
  assume h: "snippet it = Some isn \<and> totalReplyCount isn > 0 \<and> topLevelComment isn = Some tlc \<and>
    reply_pages e (tlc_id tlc) key [] ps s = Some (tok, sp) \<and>
    fetchWithRetry e (replies_url (tlc_id tlc) key tok) 3 1000 sp = (Inl err, t)"
  then have p: "reply_pages e (tlc_id tlc) key [] ps s = Some (tok, sp)"
    and g: "fetchWithRetry e (replies_url (tlc_id tlc) key tok) 3 1000 sp = (Inl err, t)"
    by simp_all
  have "fetchReplies_loop e (tlc_id tlc) key [] [] s = Some (Some err, [] @ replies_of e ps, t)"
    using p g by (rule reply_pages_fail)
  then show r: "fetchReplies e (tlc_id tlc) key s =
        Some (replies_of e ps, emit (Err ''Error fetching replies'') t)"
    by (simp add: fetchReplies_def)
  from h r show "process_items e key (it # rest) cs s =
        process_items e key rest (push_top e isn cs @ replies_of e ps)
          (emit (Err ''Error fetching replies'') t)"
    by (simp add: Let_def)
next
  assume "fetchReplies_loop e pid key [] [] s = Some (Some err, rs, t)"
  from fetchReplies_loop_failed[OF this]
  show "\<exists>qs tok' sq. reply_pages e pid key [] qs s = Some (tok', sq) \<and>
           fetchWithRetry e (replies_url pid key tok') 3 1000 sq = (Inl err, t) \<and>
           rs = replies_of e qs"
    by simp
next
  assume "fetchWithRetry e (replies_url pid key []) 3 1000 s = (Inl err, t)"
  then have "fetchReplies_loop e pid key [] [] s = Some (Some err, [], t)"
    by (subst fetchReplies_loop.simps) simp
  then show "fetchReplies e pid key s = Some ([], emit (Err ''Error fetching replies'') t)"
    by (simp add: fetchReplies_def)
next
  assume "process_items e key its cs s = Some (Some err, cs', s')"
  then show "err = TypeError" by (rule process_items_error)
qed

lemma partial_pages:
  "reply_pages partial_env ''c1'' ''k'' [] [reply_page] st0 = Some (''n'', after_reply_page)"
  by code_simp

lemma partial_failure:
  "fetchWithRetry partial_env (replies_url ''c1'' ''k'' ''n'') 3 1000 after_reply_page =
     (Inl (Exhausted 3 (NetworkError ''Failed to fetch'')), partial_state)"
  by code_simp

lemma partial_loop:
  "fetchReplies_loop partial_env ''c1'' ''k'' [] [] st0 =
     Some (Some (Exhausted 3 (NetworkError ''Failed to fetch'')),
           [comment_record partial_env ''r1'' \<lparr>textDisplay = ''me too'', publishedAt = ''2024-01-01T00:00:10Z''\<rparr>],
           partial_state)"
  by code_simp

lemma orphan_walk:
  "process_items partial_env ''k'' [orphan_item] [] st0 = Some (Some TypeError, [], st0)"
  by (simp add: orphan_item_def push_top_def)

lemma partial_replies:
  "replies_of partial_env [reply_page] =
     [comment_record partial_env ''r1'' \<lparr>textDisplay = ''me too'', publishedAt = ''2024-01-01T00:00:10Z''\<rparr>]"
  by (simp add: replies_of_def reply_page_def reply_records_def reply_item_def)

theorem nested_failure_isolated_witness:
  "snippet thread_item = Some (the (snippet thread_item)) \<and>
   reply_pages partial_env ''c1'' ''k'' [] [reply_page] st0 = Some (''n'', after_reply_page) \<and>
   fetchWithRetry partial_env (replies_url ''c1'' ''k'' ''n'') 3 1000 after_reply_page =
     (Inl (Exhausted 3 (NetworkError ''Failed to fetch'')), partial_state) \<and>
   fetchReplies partial_env ''c1'' ''k'' st0 =
     Some ([comment_record partial_env ''r1'' \<lparr>textDisplay = ''me too'', publishedAt = ''2024-01-01T00:00:10Z''\<rparr>],
           emit (Err ''Error fetching replies'') partial_state) \<and>
   process_items partial_env ''k'' [thread_item, thread_item] [] st0 =
     process_items partial_env ''k'' [thread_item]
       (push_top partial_env (the (snippet thread_item)) [] @
        [comment_record partial_env ''r1'' \<lparr>textDisplay = ''me too'', publishedAt = ''2024-01-01T00:00:10Z''\<rparr>])
       (emit (Err ''Error fetching replies'') partial_state) \<and>
   fetchWithRetry down_env (replies_url ''c1'' ''k'' []) 3 1000 st0 =
     (Inl (Exhausted 3 (NetworkError ''Failed to fetch'')),
      snd (fetchWithRetry down_env (replies_url ''c1'' ''k'' []) 3 1000 st0)) \<and>
   fetchReplies down_env ''c1'' ''k'' st0 =
     Some ([], emit (Err ''Error fetching replies'')
                 (snd (fetchWithRetry down_env (replies_url ''c1'' ''k'' []) 3 1000 st0))) \<and>
   fetchReplies_loop partial_env ''c1'' ''k'' [] [] st0 =
     Some (Some (Exhausted 3 (NetworkError ''Failed to fetch'')),
           [comment_record partial_env ''r1'' \<lparr>textDisplay = ''me too'', publishedAt = ''2024-01-01T00:00:10Z''\<rparr>],
           partial_state) \<and>
   (\<exists>qs tok' sq. reply_pages partial_env ''c1'' ''k'' [] qs st0 = Some (tok', sq) \<and>
      fetchWithRetry partial_env (replies_url ''c1'' ''k'' tok') 3 1000 sq =
        (Inl (Exhausted 3 (NetworkError ''Failed to fetch'')), partial_state) \<and>
      [comment_record partial_env ''r1'' \<lparr>textDisplay = ''me too'', publishedAt = ''2024-01-01T00:00:10Z''\<rparr>] =
        replies_of partial_env qs) \<and>
   process_items partial_env ''k'' [orphan_item] [] st0 = Some (Some TypeError, [], st0)"
proof -
  have i: "snippet thread_item = Some (the (snippet thread_item))"
    "totalReplyCount (the (snippet thread_item)) > 0"
    "topLevelComment (the (snippet thread_item)) =
       Some \<lparr>tlc_id = ''c1'', tlc_snippet = Some \<lparr>textDisplay = ''nice'', publishedAt = ''2024-01-01T00:00:00Z''\<rparr>\<rparr>"
    by (simp_all add: thread_item_def)
  have d: "fetchWithRetry down_env (replies_url ''c1'' ''k'' []) 3 1000 st0 =
     (Inl (Exhausted 3 (NetworkError ''Failed to fetch'')),
      snd (fetchWithRetry down_env (replies_url ''c1'' ''k'' []) 3 1000 st0))"
    by (simp add: fetchWithRetry_def attempt_def down_env_def st0_def Let_def)
  note t = nested_failure_isolated[where it = thread_item and isn = "the (snippet thread_item)"
      and tlc = "\<lparr>tlc_id = ''c1'', tlc_snippet = Some \<lparr>textDisplay = ''nice'', publishedAt = ''2024-01-01T00:00:00Z''\<rparr>\<rparr>"
      and e = partial_env and key = "''k''" and s = st0 and rest = "[thread_item]" and cs = "[]"
      and err = "Exhausted 3 (NetworkError ''Failed to fetch'')" and t = partial_state
      and ps = "[reply_page]" and tok = "''n''" and sp = after_reply_page]
  note u = nested_failure_isolated[where e = down_env and pid = "''c1''" and key = "''k''" and s = st0
      and err = "Exhausted 3 (NetworkError ''Failed to fetch'')"
      and t = "snd (fetchWithRetry down_env (replies_url ''c1'' ''k'' []) 3 1000 st0)"]
  from t i partial_pages partial_failure have
    "fetchReplies partial_env ''c1'' ''k'' st0 =
     Some ([comment_record partial_env ''r1'' \<lparr>textDisplay = ''me too'', publishedAt = ''2024-01-01T00:00:10Z''\<rparr>],
           emit (Err ''Error fetching replies'') partial_state) \<and>
   process_items partial_env ''k'' [thread_item, thread_item] [] st0 =
     process_items partial_env ''k'' [thread_item]
       (push_top partial_env (the (snippet thread_item)) [] @
        [comment_record partial_env ''r1'' \<lparr>textDisplay = ''me too'', publishedAt = ''2024-01-01T00:00:10Z''\<rparr>])
       (emit (Err ''Error fetching replies'') partial_state)"
    by (simp add: partial_replies)
  moreover from u d have "fetchReplies down_env ''c1'' ''k'' st0 =
     Some ([], emit (Err ''Error fetching replies'')
                 (snd (fetchWithRetry down_env (replies_url ''c1'' ''k'' []) 3 1000 st0)))"
    by blast
  moreover from nested_failure_isolated[where e = partial_env and pid = "''c1''" and key = "''k''"
      and s = st0 and err = "Exhausted 3 (NetworkError ''Failed to fetch'')" and t = partial_state
      and rs = "[comment_record partial_env ''r1'' \<lparr>textDisplay = ''me too'', publishedAt = ''2024-01-01T00:00:10Z''\<rparr>]"]
    partial_loop
  have "\<exists>qs tok' sq. reply_pages partial_env ''c1'' ''k'' [] qs st0 = Some (tok', sq) \<and>
      fetchWithRetry partial_env (replies_url ''c1'' ''k'' tok') 3 1000 sq =
        (Inl (Exhausted 3 (NetworkError ''Failed to fetch'')), partial_state) \<and>
      [comment_record partial_env ''r1'' \<lparr>textDisplay = ''me too'', publishedAt = ''2024-01-01T00:00:10Z''\<rparr>] =
        replies_of partial_env qs"
    by blast
  ultimately show ?thesis using i(1) partial_pages partial_failure d partial_loop orphan_walk
    by blast
qed

text \<open>
  Claim C5 as it is written fails: the walk over the replies of \<open>c1\<close> fails on its second
  page, the failure is logged, and the reply of the first page is in the result.
\<close>

theorem nested_failure_counterexample:
  "process_items partial_env ''k'' [thread_item] [] st0 =
     Some (None,
           [comment_record partial_env ''c1'' \<lparr>textDisplay = ''nice'', publishedAt = ''2024-01-01T00:00:00Z''\<rparr>,
            comment_record partial_env ''r1'' \<lparr>textDisplay = ''me too'', publishedAt = ''2024-01-01T00:00:10Z''\<rparr>],
           emit (Err ''Error fetching replies'') partial_state)"
  by code_simp

section \<open>Claims about the message listener\<close>

lemma emit_resp: "\<not> is_respond ev \<Longrightarrow> responses (emit ev s) = responses s"
  by (simp add: responses_def emit_def)

lemma emit_respond: "responses (emit (Respond r) s) = responses s @ [Respond r]"
  by (simp add: responses_def emit_def is_respond_def)

lemma attempt_resp: "responses (snd (attempt e u s)) = responses s"
  by (simp add: attempt_def emit_def responses_def is_respond_def Let_def
        split: sum.splits option.splits)

lemma retry_loop_resp:
  "fetchWithRetry_loop e u n d i s = (r, s') \<Longrightarrow> responses s' = responses s"
proof (induction e u n d i s arbitrary: r s' rule: fetchWithRetry_loop.induct)
  case (1 e u retries delay i s)
  obtain a s1 where a: "attempt e u s = (a, s1)" by (cases "attempt e u s")
  with attempt_resp[of e u s] have c1: "responses s1 = responses s" by simp
  show ?case
  proof (cases "i < retries")
    case False
    with "1.prems" show ?thesis by (simp add: fetchWithRetry_loop.simps[of e u retries delay i s])
  next
    case True
    show ?thesis
    proof (cases a)
      case (Inr p)
      with True a c1 "1.prems" show ?thesis
        by (simp add: fetchWithRetry_loop.simps[of e u retries delay i s])
    next
      case (Inl err)
      show ?thesis
      proof (cases "i < retries - 1")
        case False
        with True a c1 Inl "1.prems" show ?thesis
          by (auto simp add: fetchWithRetry_loop.simps[of e u retries delay i s] Let_def
                emit_resp is_respond_def)
      next
        case lt: True
        let ?s2 = "emit (Sleep (delay * (1 + i))) (emit (Warn ''Attempt failed'') s1)"
        have "fetchWithRetry_loop e u retries delay (i + 1) ?s2 = (r, s')"
          using True a Inl lt "1.prems"
          by (simp add: fetchWithRetry_loop.simps[of e u retries delay i s] Let_def)
        from "1.IH"[OF True a[symmetric] Inl refl lt this]
        have "responses s' = responses ?s2" by simp
        with c1 show ?thesis by (simp add: emit_resp is_respond_def)
      qed
    qed
  qed
qed

lemma fetch_resp: "fetchWithRetry e u n d s = (r, s') \<Longrightarrow> responses s' = responses s"
  using retry_loop_resp[of e u n d 0 s r s'] by (simp add: fetchWithRetry_def)

lemma fetchReplies_loop_resp:
  assumes "fetchReplies_loop e pid key tok rs s = Some r"
  shows "responses (snd (snd r)) = responses s"
proof (rule fetchReplies_loop.raw_induct
         [where P = "\<lambda>e pid key tok rs s r. responses (snd (snd r)) = responses s", OF _ assms])
  fix loop e pid key tok rs s r
  assume IH: "\<And>e pid key tok rs s r. loop e pid key tok rs s = Some r \<Longrightarrow>
                 responses (snd (snd r)) = responses s"
    and step: "(case fetchWithRetry e (replies_url pid key tok) 3 1000 s of
       (Inl err, s1) \<Rightarrow> Some (Some err, rs, s1)
     | (Inr data, s1) \<Rightarrow>
         if nextPageToken data \<noteq> []
         then loop e pid key (nextPageToken data) (rs @ reply_records e (items data)) s1
         else Some (None, rs @ reply_records e (items data), s1)) = Some r"
  obtain a s1 where f: "fetchWithRetry e (replies_url pid key tok) 3 1000 s = (a, s1)"
    by (cases "fetchWithRetry e (replies_url pid key tok) 3 1000 s")
  from fetch_resp[OF f] have c: "responses s1 = responses s" .
  from step f c show "responses (snd (snd r)) = responses s"
    by (auto split: sum.splits if_splits dest!: IH)
qed

lemma fetchReplies_resp:
  "fetchReplies e pid key s = Some (rs, s') \<Longrightarrow> responses s' = responses s"
  using fetchReplies_loop_resp[of e pid key "[]" "[]" s]
  by (auto simp: fetchReplies_def emit_resp is_respond_def split: option.splits)

lemma process_items_resp:
  "process_items e key its cs s = Some (x, cs', s') \<Longrightarrow> responses s' = responses s"
proof (induction its arbitrary: cs s)
  case Nil
  then show ?case by simp
next
  case (Cons it its)
  then show ?case
    by (fastforce simp: Let_def split: option.splits if_splits dest!: fetchReplies_resp)
qed

lemma fetchAllComments_loop_resp:
  assumes "fetchAllComments_loop e vid key tok cs s = Some r"
  shows "responses (snd r) = responses s"
proof (rule fetchAllComments_loop.raw_induct
         [where P = "\<lambda>e vid key tok cs s r. responses (snd r) = responses s", OF _ assms])
  fix loop e v k tok cs s r
  assume IH: "\<And>e v k tok cs s r. loop e v k tok cs s = Some r \<Longrightarrow> responses (snd r) = responses s"
    and step: "(case fetchWithRetry e (threads_url v k tok) 3 1000 s of
      (Inl err, s1) \<Rightarrow> Some (Inl err, s1)
      | (Inr data, s1) \<Rightarrow>
          case process_items e k (items data) cs s1 of
          None \<Rightarrow> None
          | Some (None, comments1, s2) \<Rightarrow>
              let s3 = emit (Sleep 200) (emit (Progress (length comments1)) s2)
              in if nextPageToken data \<noteq> []
                 then loop e v k (nextPageToken data) comments1 s3
                 else Some (Inr comments1, s3)
          | Some (Some err, comments1, s2) \<Rightarrow> Some (Inl err, s2)) = Some r"
  obtain a s1 where f: "fetchWithRetry e (threads_url v k tok) 3 1000 s = (a, s1)"
    by (cases "fetchWithRetry e (threads_url v k tok) 3 1000 s")
  from fetch_resp[OF f] have c: "responses s1 = responses s" .
  show "responses (snd r) = responses s"
  proof (cases a)
    case (Inl err)
    with step f c show ?thesis by auto
  next
    case (Inr data)
    from step f Inr obtain x cs1 s2 where p: "process_items e k (items data) cs s1 = Some (x, cs1, s2)"
      by (cases "process_items e k (items data) cs s1") auto
    from process_items_resp[OF p] c have c2: "responses s2 = responses s" by simp
    have c3: "responses (emit (Sleep 200) (emit (Progress (length cs1)) s2)) = responses s"
      using c2 by (simp add: emit_resp is_respond_def)
    show ?thesis
    proof (cases x)
      case (Some err)
      with step f Inr p c2 show ?thesis by auto
    next
      case None
      show ?thesis
      proof (cases "nextPageToken data = []")
        case True
        with step f Inr p None c3 show ?thesis by (auto simp: Let_def)
      next
        case False
        with step f Inr p None have
          "loop e v k (nextPageToken data) cs1 (emit (Sleep 200) (emit (Progress (length cs1)) s2)) = Some r"
          by (simp add: Let_def)
        from IH[OF this] c3 show ?thesis by simp
      qed
    qed
  qed
qed

lemma fetchAllComments_resp:
  "fetchAllComments e vid key s = Some (r, s') \<Longrightarrow> responses s' = responses s"
  using fetchAllComments_loop_resp[of e vid key "[]" "[]" s]
  by (auto simp: fetchAllComments_def emit_resp is_respond_def split: option.splits sum.splits)

lemma sendAllComments_resp: "responses (sendAllComments e cs s) = responses s"
  by (simp add: sendAllComments_def Let_def emit_resp is_respond_def split: sum.splits)

lemma resolve_resp: "resolve e req s = (r, s') \<Longrightarrow> responses s' = responses s"
  by (auto simp: resolve_def Let_def emit_resp is_respond_def
        split: if_splits option.splits sum.splits prod.splits)

lemma cyclic_walk_diverges: "fetchAllComments cyclic_env v k s = None"
proof (cases "fetchAllComments_loop cyclic_env v k [] [] s")
  case None
  then show ?thesis by (simp add: fetchAllComments_def)
next
  case (Some r)
  then show ?thesis using cyclic_loop_aux by blast
qed

text \<open>
  Claim C8, as amended. For every \<^verbatim>\<open>fetchComments\<close> message for which a precondition fails
  or the walk over the threads returns, with records or with a failure, the task of the
  listener ends and has sent exactly one answer.
\<close>

theorem one_response:
  assumes "action req = ''fetchComments''" and "walk_returns e req s"
  shows "\<exists>s' r. listener e req s = Some s' \<and> responses s' = responses s @ [Respond r]"
proof -
  obtain v s1 where rz: "resolve e req s = (v, s1)" by (cases "resolve e req s")
  from resolve_resp[OF rz] have c1: "responses s1 = responses s" .
  show ?thesis
  proof (cases v)
    case (Inl r)
    with assms rz c1 show ?thesis by (auto simp: listener_def emit_respond)
  next
    case (Inr p)
    obtain vid key where p: "p = (vid, key)" by (cases p)
    from assms(2) rz Inr p obtain w s2 where w: "fetchAllComments e vid key s1 = Some (w, s2)"
      by (auto simp: walk_returns_def)
    from fetchAllComments_resp[OF w] c1 have c2: "responses s2 = responses s" by simp
    show ?thesis
    proof (cases w)
      case (Inl err)
      with assms rz Inr p w c2 show ?thesis
        by (auto simp: listener_def emit_respond emit_resp is_respond_def)
    next
      case (Inr allComments)
      with assms rz \<open>v = Inr p\<close> p w c2 show ?thesis
        by (auto simp: listener_def emit_respond sendAllComments_resp)
    qed
  qed
qed

theorem one_response_witness:
  "action \<lparr>action = ''fetchComments'', videoId = ''X''\<rparr> = ''fetchComments'' \<and>
   walk_returns three_pages_env \<lparr>action = ''fetchComments'', videoId = ''X''\<rparr> st0 \<and>
   (\<exists>s' r. listener three_pages_env \<lparr>action = ''fetchComments'', videoId = ''X''\<rparr> st0 = Some s' \<and>
           responses s' = responses st0 @ [Respond r])"
proof -
  have a: "action \<lparr>action = ''fetchComments'', videoId = ''X''\<rparr> = ''fetchComments''" by simp
  have w: "walk_returns three_pages_env \<lparr>action = ''fetchComments'', videoId = ''X''\<rparr> st0"
    by code_simp
  from one_response[OF a w] a w show ?thesis by blast
qed

text \<open>
  Claim C8 as it is written fails: against the source that repeats its cursor the task
  never ends, and the caller gets no answer.
\<close>

theorem one_response_counterexample:
  "listener cyclic_env \<lparr>action = ''fetchComments'', videoId = ''v''\<rparr> st0 = None"
proof -
  have "resolve cyclic_env \<lparr>action = ''fetchComments'', videoId = ''v''\<rparr> st0 =
          (Inr (''v'', ''k''), st0)"
    by (simp add: resolve_def cyclic_env_def)
  then show ?thesis by (simp add: listener_def cyclic_walk_diverges)
qed

section \<open>Claims about the sentiment counts\<close>

lemma count_step_other:
  "c_sentiment c \<noteq> k \<Longrightarrow> count_step acc c k = acc k"
  by (simp add: count_step_def)

lemma count_step_same:
  "c_sentiment c = k \<Longrightarrow> k \<notin> set function_names \<Longrightarrow> k \<noteq> ''__proto__'' \<Longrightarrow>
     count_step acc c k =
       Some (Num ((case acc k of Some (Num a) \<Rightarrow> a | _ \<Rightarrow> 0) + 1))
     \<or> (\<exists>f j. acc k = Some (Junk f j))"
  by (auto simp: count_step_def next_count_def split: option.splits count.splits)

lemma counts_fold_key:
  assumes "k \<notin> set function_names" "k \<noteq> ''__proto__''"
  shows "acc k = None \<or> (\<exists>a. acc k = Some (Num a)) \<Longrightarrow>
     foldl count_step acc R k =
       (if with_sentiment R k = 0 then acc k
        else Some (Num ((case acc k of Some (Num a) \<Rightarrow> a | _ \<Rightarrow> 0) + with_sentiment R k)))"
proof (induction R arbitrary: acc)
  case Nil
  then show ?case by (simp add: with_sentiment_def)
next
  case (Cons c R)
  show ?case
  proof (cases "c_sentiment c = k")
    case False
    then have s: "count_step acc c k = acc k" by (rule count_step_other)
    with Cons.prems have "count_step acc c k = None \<or> (\<exists>a. count_step acc c k = Some (Num a))"
      by simp
    with Cons.IH[of "count_step acc c"] s False show ?thesis by (simp add: with_sentiment_def)
  next
    case True
    from Cons.prems count_step_same[OF True assms, of acc]
    have s: "count_step acc c k = Some (Num ((case acc k of Some (Num a) \<Rightarrow> a | _ \<Rightarrow> 0) + 1))"
      by auto
    then have "count_step acc c k = None \<or> (\<exists>a. count_step acc c k = Some (Num a))" by simp
    with Cons.IH[of "count_step acc c"] s True show ?thesis by (simp add: with_sentiment_def)
  qed
qed

lemma sentiments_plain: "k \<in> sentiments \<Longrightarrow> k \<notin> set function_names \<and> k \<noteq> ''__proto__''"
  by (auto simp: sentiments_def function_names_def)

lemma counts_dom:
  "dom (foldl count_step acc R) \<subseteq> dom acc \<union> c_sentiment ` set R"
proof (induction R arbitrary: acc)
  case Nil
  then show ?case by simp
next
  case (Cons c R)
  have "dom (count_step acc c) \<subseteq> insert (c_sentiment c) (dom acc)"
    by (auto simp: count_step_def split: if_splits)
  with Cons[of "count_step acc c"] show ?case by auto
qed

lemma counts_keys_kept: "k \<in> dom acc \<Longrightarrow> k \<in> dom (foldl count_step acc R)"
  by (induction R arbitrary: acc) (auto simp: count_step_def)

lemma with_sentiment_sum:
  "\<forall>c\<in>set R. c_sentiment c \<in> sentiments \<Longrightarrow>
     with_sentiment R ''positive'' + with_sentiment R ''neutral'' + with_sentiment R ''negative''
       = length R"
  by (induction R) (auto simp: with_sentiment_def sentiments_def)

lemma normalise_missing:
  "p_sentiment p = None \<or> p_sentiment p = Some [] \<Longrightarrow> c_sentiment (normalise p) = ''neutral''"
  by (auto simp: normalise_def lower_or_def toLowerCase_def)

lemma normalise_neutral: "(c_sentiment (normalise p) = ''neutral'') = reads_neutral p"
  by (auto simp: normalise_def lower_or_def reads_neutral_def toLowerCase_def split: option.splits)

lemma initial_counts:
  "[''positive'' \<mapsto> Num 0, ''neutral'' \<mapsto> Num 0, ''negative'' \<mapsto> Num 0] k =
     (if k \<in> sentiments then Some (Num 0) else None)"
  by (simp add: sentiments_def)

text \<open>
  Claim C2, as amended. Each of the three keys positive, neutral and negative is always
  in the result, and its value is the number of records with that sentiment. A sentiment
  that is none of the three and no inherited property name gets a key of its own, with the
  number of its records. For every record list whose sentiments are all among the three,
  the result has exactly the three keys and their values sum to the number of records.
  Normalisation turns a missing or empty sentiment into neutral, so after an update from
  storage the count under neutral is the number of predictions whose sentiment is
  missing, empty or the word neutral; a value that is not recognised is kept.
\<close>

theorem sentiment_counts:
  "(\<forall>k\<in>sentiments. getSentimentCounts R k = Some (Num (with_sentiment R k))) \<and>
   (\<forall>k. k \<notin> sentiments \<and> k \<notin> set function_names \<and> k \<noteq> ''__proto__'' \<longrightarrow>
      getSentimentCounts R k =
        (if with_sentiment R k = 0 then None else Some (Num (with_sentiment R k)))) \<and>
   ((\<forall>c\<in>set R. c_sentiment c \<in> sentiments) \<longrightarrow>
      dom (getSentimentCounts R) = sentiments \<and> three_sum (getSentimentCounts R) = length R) \<and>
   (\<forall>p::prediction. p_sentiment p = None \<or> p_sentiment p = Some [] \<longrightarrow>
      reads_neutral p \<and> c_sentiment (normalise p) = ''neutral'') \<and>
   (\<forall>P old. P \<noteq> [] \<longrightarrow>
      getSentimentCounts (updateCommentsData P old) ''neutral'' =
        Some (Num (length (filter reads_neutral P))))"
proof -
  let ?init = "[''positive'' \<mapsto> Num 0, ''neutral'' \<mapsto> Num (0::nat), ''negative'' \<mapsto> Num 0]
                 :: string \<rightharpoonup> string count"
  have key: "getSentimentCounts R k = Some (Num (with_sentiment R k))" if "k \<in> sentiments" for k R
  proof -
    have i: "?init k = Some (Num 0)" using that by (auto simp: sentiments_def)
    then have "?init k = None \<or> (\<exists>a. ?init k = Some (Num a))" by simp
    with counts_fold_key[where k = k and acc = ?init and R = R] sentiments_plain[OF that] i
    show ?thesis by (simp add: getSentimentCounts_def)
  qed
  have other: "getSentimentCounts R k =
        (if with_sentiment R k = 0 then None else Some (Num (with_sentiment R k)))"
    if "k \<notin> sentiments \<and> k \<notin> set function_names \<and> k \<noteq> ''__proto__''" for k
  proof -
    have i: "?init k = None" using that by (simp add: sentiments_def)
    then have "?init k = None \<or> (\<exists>a. ?init k = Some (Num a))" by simp
    with counts_fold_key[where k = k and acc = ?init and R = R] that i
    show ?thesis by (simp add: getSentimentCounts_def)
  qed
  have recognised: "dom (getSentimentCounts R) = sentiments \<and> three_sum (getSentimentCounts R) = length R"
    if h: "\<forall>c\<in>set R. c_sentiment c \<in> sentiments"
  proof
    have d: "dom ?init = sentiments" by (auto simp: sentiments_def)
    from counts_dom[of ?init R] h d have "dom (getSentimentCounts R) \<subseteq> sentiments"
      unfolding getSentimentCounts_def by blast
    moreover have "sentiments \<subseteq> dom (getSentimentCounts R)"
      using key[of _ R] by blast
    ultimately show "dom (getSentimentCounts R) = sentiments" by blast
    have "three_sum (getSentimentCounts R) =
            with_sentiment R ''positive'' + with_sentiment R ''neutral'' + with_sentiment R ''negative''"
      unfolding three_sum_def
      using key[of "''positive''" R] key[of "''neutral''" R] key[of "''negative''" R]
      by (simp add: sentiments_def num_of_def)
    with with_sentiment_sum[OF h] show "three_sum (getSentimentCounts R) = length R" by simp
  qed
  have missing: "reads_neutral p \<and> c_sentiment (normalise p) = ''neutral''"
    if "p_sentiment p = None \<or> p_sentiment p = Some []" for p :: prediction
    using normalise_missing[OF that] by (simp add: normalise_neutral)
  have neutral: "getSentimentCounts (updateCommentsData P old) ''neutral'' =
        Some (Num (length (filter reads_neutral P)))" if "P \<noteq> []" for P old
  proof -
    have "with_sentiment (map normalise P) ''neutral'' = length (filter reads_neutral P)"
      unfolding with_sentiment_def
      by (simp only: filter_map length_map comp_def normalise_neutral)
    with key[of "''neutral''" "map normalise P"] that show ?thesis
      by (simp add: updateCommentsData_def sentiments_def)
  qed
  show ?thesis
    apply (intro conjI)
    subgoal using key by blast
    subgoal using other by blast
    subgoal using recognised by blast
    subgoal using missing by blast
    subgoal using neutral by blast
    done
qed

theorem sentiment_counts_witness:
  "list_all (\<lambda>c. c_sentiment c \<in> sentiments) (normalise missing_prediction # four_positive) \<and>
   dom (getSentimentCounts (normalise missing_prediction # four_positive)) = sentiments \<and>
   three_sum (getSentimentCounts (normalise missing_prediction # four_positive)) = 6 \<and>
   getSentimentCounts (normalise missing_prediction # four_positive) ''positive'' = Some (Num 4) \<and>
   getSentimentCounts (normalise missing_prediction # four_positive) ''neutral'' = Some (Num 1) \<and>
   getSentimentCounts (normalise missing_prediction # four_positive) ''negative'' = Some (Num 1) \<and>
   getSentimentCounts (normalise missing_prediction # four_positive) ''mixed'' = None \<and>
   p_sentiment missing_prediction = None \<and>
   c_sentiment (normalise missing_prediction) = ''neutral'' \<and>
   getSentimentCounts (updateCommentsData [missing_prediction, mixed_prediction] []) ''neutral'' =
     Some (Num 1)"
proof -
  let ?R = "normalise missing_prediction # four_positive"
  have n: "p_sentiment missing_prediction = None" by (simp add: missing_prediction_def)
  have m: "c_sentiment (normalise missing_prediction) = ''neutral''"
    using sentiment_counts[of ?R] n by blast
  have h: "\<forall>c\<in>set ?R. c_sentiment c \<in> sentiments"
    by (simp add: m four_positive_def plain_comment_def sentiments_def)
  have l: "length ?R = 6" by (simp add: four_positive_def)
  have w: "with_sentiment ?R ''positive'' = 4" "with_sentiment ?R ''neutral'' = 1"
     "with_sentiment ?R ''negative'' = 1" "with_sentiment ?R ''mixed'' = 0"
    by (simp_all add: with_sentiment_def m four_positive_def plain_comment_def)
  have s: "''positive'' \<in> sentiments" "''neutral'' \<in> sentiments" "''negative'' \<in> sentiments"
     "''mixed'' \<notin> sentiments \<and> ''mixed'' \<notin> set function_names \<and> ''mixed'' \<noteq> ''__proto__''"
    by (simp_all add: sentiments_def function_names_def)
  have r: "filter reads_neutral [missing_prediction, mixed_prediction] = [missing_prediction]"
    by (simp add: reads_neutral_def missing_prediction_def mixed_prediction_def toLowerCase_def)
  have ne: "[missing_prediction, mixed_prediction] \<noteq> []" by simp
  note t = sentiment_counts[of ?R]
  from t h l have 1: "dom (getSentimentCounts ?R) = sentiments" "three_sum (getSentimentCounts ?R) = 6"
    by simp_all
  from t s(1-3) w(1-3) have 2: "getSentimentCounts ?R ''positive'' = Some (Num 4)"
     "getSentimentCounts ?R ''neutral'' = Some (Num 1)"
     "getSentimentCounts ?R ''negative'' = Some (Num 1)"
    by simp_all
  from t s(4) w(4) have 3: "getSentimentCounts ?R ''mixed'' = None" by simp
  from t ne r have 4: "getSentimentCounts (updateCommentsData [missing_prediction, mixed_prediction] []) ''neutral'' =
     Some (Num 1)"
    by simp
  from h 1 2 3 4 n m show ?thesis by (simp add: list_all_iff)
qed

text \<open>
  Claim C2 as it is written fails: a prediction with the sentiment \<open>Mixed\<close> is counted
  under a fourth key, and the three counts sum to zero for one record.
\<close>

theorem sentiment_counts_counterexample:
  "getSentimentCounts (updateCommentsData [mixed_prediction] []) ''mixed'' = Some (Num 1) \<and>
   three_sum (getSentimentCounts (updateCommentsData [mixed_prediction] [])) = 0 \<and>
   length (updateCommentsData [mixed_prediction] []) = 1"
  by code_simp

text \<open>
  A sentiment that names an inherited method is not counted by a number, and the
  sentiment \<^verbatim>\<open>__proto__\<close> is not counted at all.
\<close>

lemma inherited_sentiment:
  "getSentimentCounts [plain_comment ''constructor'' ''weak'' 5, plain_comment ''__proto__'' ''weak'' 5,
                       plain_comment ''constructor'' ''weak'' 5] ''constructor'' =
     Some (Junk ''constructor'' 2) \<and>
   getSentimentCounts [plain_comment ''constructor'' ''weak'' 5, plain_comment ''__proto__'' ''weak'' 5,
                       plain_comment ''constructor'' ''weak'' 5] ''__proto__'' = None"
  by code_simp

section \<open>Claims about the breakdown\<close>

lemma percent_examples:
  "percent 3 4 = ''75.0''" "percent 1 4 = ''25.0''" "percent 0 1 = ''0.0''" "percent 23 80 = ''28.7''"
  by code_simp+

text \<open>
  Claim C7. For every selected sentiment the breakdown is computed: the denominator of
  both percentages is the larger of one and the number of strong and weak records of that
  sentiment, so it is never zero; each percentage is the count divided by the denominator
  and multiplied by 100, in double arithmetic, printed with one digit after the point; the
  examples are the first five strong and the first five weak records. With three strong
  records and one weak the percentages are 75.0 and 25.0, and with none they are 0.0 and
  0.0.
\<close>

theorem breakdown_percentages:
  assumes "sel \<noteq> []"
  shows "\<exists>b. renderDetailedBreakdown cs (Some sel) = Some b \<and>
     total b = max 1 (strong_count cs sel + weak_count cs sel) \<and> 0 < total b \<and>
     strongPercent b =
       toFixed1 (fmul (fdiv (of_nat (strong_count cs sel)) (of_nat (total b))) 100) \<and>
     weakPercent b =
       toFixed1 (fmul (fdiv (of_nat (weak_count cs sel)) (of_nat (total b))) 100) \<and>
     strongTop5 b = take 5 (filter (\<lambda>c. c_sentiment c = sel \<and> c_strength c = ''strong'') cs) \<and>
     weakTop5 b = take 5 (filter (\<lambda>c. c_sentiment c = sel \<and> c_strength c = ''weak'') cs) \<and>
     (strong_count cs sel = 3 \<and> weak_count cs sel = 1 \<longrightarrow>
        strongPercent b = ''75.0'' \<and> weakPercent b = ''25.0'') \<and>
     (strong_count cs sel = 0 \<and> weak_count cs sel = 0 \<longrightarrow>
        strongPercent b = ''0.0'' \<and> weakPercent b = ''0.0'')"
proof -
  define S where "S = filter (\<lambda>c. c_strength c = ''strong'') (filter (\<lambda>c. c_sentiment c = sel) cs)"
  define W where "W = filter (\<lambda>c. c_strength c = ''weak'') (filter (\<lambda>c. c_sentiment c = sel) cs)"
  define tot where "tot = (if length S + length W = 0 then 1 else length S + length W)"
  define b where "b = \<lparr>total = tot, strongPercent = percent (length S) tot,
                        weakPercent = percent (length W) tot,
                        strongTop5 = take 5 S, weakTop5 = take 5 W\<rparr>"
  have S: "S = filter (\<lambda>c. c_sentiment c = sel \<and> c_strength c = ''strong'') cs"
    unfolding S_def by (simp only: filter_filter conj_commute)
  have W: "W = filter (\<lambda>c. c_sentiment c = sel \<and> c_strength c = ''weak'') cs"
    unfolding W_def by (simp only: filter_filter conj_commute)
  have nS: "length S = strong_count cs sel" unfolding S strong_count_def ..
  have nW: "length W = weak_count cs sel" unfolding W weak_count_def ..
  have r: "renderDetailedBreakdown cs (Some sel) = Some b"
    using assms unfolding renderDetailedBreakdown_def Let_def b_def S_def W_def tot_def
    by (simp only: option.case if_False)
  have tt: "tot = max 1 (strong_count cs sel + weak_count cs sel)"
    unfolding tot_def nS nW by (simp add: max_def)
  have t: "total b = max 1 (strong_count cs sel + weak_count cs sel)"
    unfolding b_def using tt by simp
  have p: "0 < total b" unfolding t by simp
  have sp: "strongPercent b = percent (strong_count cs sel) (total b)"
    unfolding b_def nS by simp
  have wp: "weakPercent b = percent (weak_count cs sel) (total b)"
    unfolding b_def nW by simp
  have tops: "strongTop5 b = take 5 (filter (\<lambda>c. c_sentiment c = sel \<and> c_strength c = ''strong'') cs)"
      "weakTop5 b = take 5 (filter (\<lambda>c. c_sentiment c = sel \<and> c_strength c = ''weak'') cs)"
    unfolding b_def using S W by simp_all
  have a: "strong_count cs sel = 3 \<and> weak_count cs sel = 1 \<longrightarrow>
        strongPercent b = ''75.0'' \<and> weakPercent b = ''25.0''"
  proof
    assume h: "strong_count cs sel = 3 \<and> weak_count cs sel = 1"
    then have tb: "total b = 4" unfolding t by simp
    from h have c: "strong_count cs sel = 3" "weak_count cs sel = 1" by simp_all
    show "strongPercent b = ''75.0'' \<and> weakPercent b = ''25.0''"
      by (simp only: sp wp tb c percent_examples simp_thms)
  qed
  have z: "strong_count cs sel = 0 \<and> weak_count cs sel = 0 \<longrightarrow>
        strongPercent b = ''0.0'' \<and> weakPercent b = ''0.0''"
  proof
    assume h: "strong_count cs sel = 0 \<and> weak_count cs sel = 0"
    then have tb: "total b = 1" unfolding t by simp
    from h have c: "strong_count cs sel = 0" "weak_count cs sel = 0" by simp_all
    show "strongPercent b = ''0.0'' \<and> weakPercent b = ''0.0''"
      by (simp only: sp wp tb c percent_examples simp_thms)
  qed
  from r t p sp wp tops a z show ?thesis unfolding percent_def by blast
qed

theorem breakdown_percentages_witness:
  "''positive'' \<noteq> [] \<and>
   renderDetailedBreakdown four_positive (Some ''positive'') =
     Some \<lparr>total = 4, strongPercent = ''75.0'', weakPercent = ''25.0'',
           strongTop5 = [plain_comment ''positive'' ''strong'' 5,
                         plain_comment ''positive'' ''strong'' 65,
                         plain_comment ''positive'' ''strong'' 100],
           weakTop5 = [plain_comment ''positive'' ''weak'' 40]\<rparr> \<and>
   strong_count four_positive ''positive'' = 3 \<and> weak_count four_positive ''positive'' = 1 \<and>
   renderDetailedBreakdown [] (Some ''positive'') =
     Some \<lparr>total = 1, strongPercent = ''0.0'', weakPercent = ''0.0'',
           strongTop5 = [], weakTop5 = []\<rparr> \<and>
   strong_count [] ''positive'' = 0 \<and> weak_count [] ''positive'' = 0"
proof -
  have ne: "''positive'' \<noteq> []" by simp
  have c: "strong_count four_positive ''positive'' = 3" "weak_count four_positive ''positive'' = 1"
    by (simp_all add: strong_count_def weak_count_def four_positive_def plain_comment_def)
  have f: "filter (\<lambda>c. c_sentiment c = ''positive'' \<and> c_strength c = ''strong'') four_positive =
             [plain_comment ''positive'' ''strong'' 5, plain_comment ''positive'' ''strong'' 65,
              plain_comment ''positive'' ''strong'' 100]"
     "filter (\<lambda>c. c_sentiment c = ''positive'' \<and> c_strength c = ''weak'') four_positive =
             [plain_comment ''positive'' ''weak'' 40]"
    by (simp_all add: four_positive_def plain_comment_def)
  from breakdown_percentages[OF ne, of four_positive] c f
  have 1: "renderDetailedBreakdown four_positive (Some ''positive'') =
     Some \<lparr>total = 4, strongPercent = ''75.0'', weakPercent = ''25.0'',
           strongTop5 = [plain_comment ''positive'' ''strong'' 5,
                         plain_comment ''positive'' ''strong'' 65,
                         plain_comment ''positive'' ''strong'' 100],
           weakTop5 = [plain_comment ''positive'' ''weak'' 40]\<rparr>"
    by (auto simp del: breakdown.ext_inject intro: breakdown.equality)
  have c0: "strong_count [] ''positive'' = 0" "weak_count [] ''positive'' = 0"
    by (simp_all add: strong_count_def weak_count_def)
  from breakdown_percentages[OF ne, of "[]"] c0
  have 2: "renderDetailedBreakdown [] (Some ''positive'') =
     Some \<lparr>total = 1, strongPercent = ''0.0'', weakPercent = ''0.0'',
           strongTop5 = [], weakTop5 = []\<rparr>"
    by (auto intro: breakdown.equality)
  from ne 1 c 2 c0 show ?thesis by simp
qed

text \<open>
  With 23 strong and 57 weak records the quotient \<^verbatim>\<open>23 / 80\<close> is rounded before it is
  multiplied, and the percentages are printed as 28.7 and 71.3.
\<close>

lemma breakdown_rounding:
  "renderDetailedBreakdown eighty (Some ''negative'') =
     Some \<lparr>total = 80, strongPercent = ''28.7'', weakPercent = ''71.3'',
           strongTop5 = replicate 5 (plain_comment ''negative'' ''strong'' 5),
           weakTop5 = replicate 5 (plain_comment ''negative'' ''weak'' 5)\<rparr>"
  by code_simp

section \<open>Claims about the time series\<close>

lemma floor_div_pos:
  fixes x :: rat and n :: int
  assumes "0 < n"
  shows "\<lfloor>x\<rfloor> div n = \<lfloor>x / of_int n\<rfloor>"
proof -
  let ?q = "\<lfloor>x\<rfloor> div n"
  have n: "(0::rat) < of_int n" using assms by simp
  have dm: "?q * n + \<lfloor>x\<rfloor> mod n = \<lfloor>x\<rfloor>" by (rule div_mult_mod_eq)
  have m: "0 \<le> \<lfloor>x\<rfloor> mod n" "\<lfloor>x\<rfloor> mod n < n"
    using assms by (simp_all add: pos_mod_sign pos_mod_bound)
  have "?q * n \<le> \<lfloor>x\<rfloor>" using dm m by linarith
  then have "of_int (?q * n) \<le> (of_int \<lfloor>x\<rfloor> :: rat)" by (simp only: of_int_le_iff)
  also have "\<dots> \<le> x" by simp
  finally have 1: "of_int ?q \<le> x / of_int n" using n by (simp add: pos_le_divide_eq)
  have "\<lfloor>x\<rfloor> < ?q * n + n" using dm m by linarith
  then have "\<lfloor>x\<rfloor> + 1 \<le> ?q * n + n" by simp
  then have "(of_int (\<lfloor>x\<rfloor> + 1) :: rat) \<le> of_int (?q * n + n)" by (simp only: of_int_le_iff)
  moreover have "x < of_int (\<lfloor>x\<rfloor> + 1)" by linarith
  ultimately have "x < of_int (?q * n + n)" by (rule less_le_trans[rotated])
  then have "x < (of_int ?q + 1) * of_int n" by (simp add: algebra_simps)
  then have 2: "x / of_int n < of_int ?q + 1" using n by (simp add: pos_divide_less_eq)
  from floor_unique[OF 1 2] show ?thesis by simp
qed

lemma bin_of_seconds:
  fixes t :: rat
  assumes "0 \<le> t"
  shows "\<lfloor>t * 1000\<rfloor> div 1000 div 30 * 30 = \<lfloor>t / 30\<rfloor> * 30"
proof -
  have "\<lfloor>t * 1000\<rfloor> div 1000 div 30 = \<lfloor>t * 1000\<rfloor> div 30000"
    by (simp add: div_mult2_eq[symmetric])
  also have "\<dots> = \<lfloor>t * 1000 / of_int 30000\<rfloor>" by (rule floor_div_pos) simp
  also have "t * 1000 / of_int 30000 = t / 30" by simp
  finally show ?thesis by simp
qed

lemma in_bin_iff:
  fixes t :: rat
  shows "(\<lfloor>t / 30\<rfloor> * 30 = b) \<longleftrightarrow> (b mod 30 = 0 \<and> of_int b \<le> t \<and> t < of_int b + 30)"
proof
  assume h: "\<lfloor>t / 30\<rfloor> * 30 = b"
  have lo: "of_int \<lfloor>t / 30\<rfloor> * 30 \<le> t"
    using of_int_floor_le[of "t / 30"] by (simp only: pos_le_divide_eq[symmetric] zero_less_numeral)
  have "t / 30 < of_int \<lfloor>t / 30\<rfloor> + 1" by linarith
  then have "t < (of_int \<lfloor>t / 30\<rfloor> + 1) * 30"
    by (simp only: pos_divide_less_eq zero_less_numeral)
  then have hi: "t < of_int \<lfloor>t / 30\<rfloor> * 30 + 30" by (simp add: algebra_simps)
  note lo hi
  moreover have "(of_int b :: rat) = of_int \<lfloor>t / 30\<rfloor> * 30" using h[symmetric] by simp
  moreover have "b mod 30 = 0" using h[symmetric] by simp
  ultimately show "b mod 30 = 0 \<and> of_int b \<le> t \<and> t < of_int b + 30" by simp
next
  assume h: "b mod 30 = 0 \<and> of_int b \<le> t \<and> t < of_int b + 30"
  then have "30 dvd b" by presburger
  then obtain k where k: "b = k * 30" by (auto simp: dvd_def mult.commute)
  from h k have "of_int k \<le> t / 30" "t / 30 < of_int k + 1" by simp_all
  from floor_unique[OF this] k show "\<lfloor>t / 30\<rfloor> * 30 = b" by simp
qed

lemma modify_fst: "map fst (modify k f m) = map fst m"
  by (induction m) (auto simp: modify_def)

lemma modify_map_of:
  "map_of (modify k f m) k' = (if k' = k then map_option f (map_of m k) else map_of m k')"
  by (induction m) (auto simp: modify_def)

lemma bump_row_sentiment:
  "s \<in> sentiments \<Longrightarrow> bin (bump_row s r) = bin r \<and> row_total (bump_row s r) = row_total r + 1"
  by (auto simp: bump_row_def sentiments_def row_total_def)

lemma keyed_snoc:
  "keyed (P @ [c]) k = keyed P k + (if row_key c = Some k then 1 else 0)"
  by (simp add: keyed_def)

lemma timeline_step_inv:
  assumes inv: "timeline_inv m P" and s: "c_sentiment c \<in> sentiments"
  shows "timeline_inv (timeline_step m c) (P @ [c])"
proof (cases "toDateFromAny (c_timestamp c)")
  case None
  then have "row_key c = None" by (simp add: row_key_def)
  with inv None show ?thesis
    by (simp add: timeline_inv_def timeline_step_def keyed_snoc)
next
  case (Some ts)
  define b where "b = bin_of ts"
  have rk: "row_key c = Some b" using Some by (simp add: row_key_def b_def)
  define m1 where "m1 = (case map_of m b of
                     None \<Rightarrow> m @ [(b, \<lparr>bin = b, positive = 0, neutral = 0, negative = 0\<rparr>)]
                   | Some r \<Rightarrow> m)"
  have step: "timeline_step m c = modify b (bump_row (c_sentiment c)) m1"
    using Some unfolding timeline_step_def b_def m1_def Let_def by simp
  from inv have d: "distinct (map fst m)"
    and z: "\<And>k. (map_of m k = None) = (keyed P k = 0)"
    and v: "\<And>k r. map_of m k = Some r \<Longrightarrow> bin r = k \<and> row_total r = keyed P k"
    by (auto simp: timeline_inv_def)
  have d1: "distinct (map fst m1)"
  proof (cases "map_of m b")
    case None
    then have "b \<notin> fst ` set m" by (simp add: map_of_eq_None_iff)
    with d None show ?thesis by (simp add: m1_def)
  next
    case (Some r)
    with d show ?thesis by (simp add: m1_def)
  qed
  have other: "\<And>k. k \<noteq> b \<Longrightarrow> map_of m1 k = map_of m k"
    by (auto simp: m1_def map_of_append map_add_def split: option.splits)
  obtain r1 where r1: "map_of m1 b = Some r1" "bin r1 = b" "row_total r1 = keyed P b"
  proof (cases "map_of m b")
    case None
    with z[of b] have "keyed P b = 0" by simp
    moreover from None have "map_of m1 b = Some \<lparr>bin = b, positive = 0, neutral = 0, negative = 0\<rparr>"
      by (simp add: m1_def map_of_append map_add_def)
    ultimately show ?thesis
      by (intro that[of "\<lparr>bin = b, positive = 0, neutral = 0, negative = 0\<rparr>"])
         (simp_all add: row_total_def)
  next
    case (Some r)
    with v[of b r] show ?thesis by (intro that[of r]) (simp_all add: m1_def)
  qed
  show ?thesis
    unfolding timeline_inv_def step
  proof (intro conjI)
    show "distinct (map fst (modify b (bump_row (c_sentiment c)) m1))"
      using d1 by (simp add: modify_fst)
  next
    show "\<forall>k. (map_of (modify b (bump_row (c_sentiment c)) m1) k = None) = (keyed (P @ [c]) k = 0)"
    proof
      fix k
      show "(map_of (modify b (bump_row (c_sentiment c)) m1) k = None) = (keyed (P @ [c]) k = 0)"
        using r1 z[of k] other[of k] rk by (simp add: modify_map_of keyed_snoc)
    qed
  next
    show "\<forall>k r. map_of (modify b (bump_row (c_sentiment c)) m1) k = Some r \<longrightarrow>
            bin r = k \<and> row_total r = keyed (P @ [c]) k"
    proof (intro allI impI)
      fix k r
      assume a: "map_of (modify b (bump_row (c_sentiment c)) m1) k = Some r"
      show "bin r = k \<and> row_total r = keyed (P @ [c]) k"
      proof (cases "k = b")
        case True
        with a r1 have "r = bump_row (c_sentiment c) r1" by (simp add: modify_map_of)
        with bump_row_sentiment[OF s, of r1] r1 True rk show ?thesis by (simp add: keyed_snoc)
      next
        case False
        with a other[of k] have "map_of m k = Some r" by (simp add: modify_map_of)
        with v[of k r] False rk show ?thesis by (simp add: keyed_snoc)
      qed
    qed
  qed
qed

lemma timeline_fold_inv:
  "timeline_inv m P \<Longrightarrow> \<forall>c\<in>set R. c_sentiment c \<in> sentiments \<Longrightarrow>
     timeline_inv (foldl timeline_step m R) (P @ R)"
proof (induction R arbitrary: m P)
  case Nil
  then show ?case by simp
next
  case (Cons c R)
  from Cons.prems have "timeline_inv (timeline_step m c) (P @ [c])"
    by (intro timeline_step_inv) simp_all
  from Cons.IH[OF this] Cons.prems(2) show ?case by simp
qed

lemma set_insert_row: "set (insert_row x ys) = insert x (set ys)"
  by (induction ys) auto

lemma set_sort_rows: "set (sort_rows xs) = set xs"
  by (induction xs) (simp_all add: sort_rows_def set_insert_row)

lemma distinct_insert_row:
  "distinct (map bin (insert_row x ys)) = (bin x \<notin> bin ` set ys \<and> distinct (map bin ys))"
  by (induction ys) (auto simp: set_insert_row)

lemma distinct_sort_rows: "distinct (map bin (sort_rows xs)) = distinct (map bin xs)"
  by (induction xs) (simp_all add: sort_rows_def distinct_insert_row set_sort_rows[unfolded sort_rows_def])

lemma sorted_insert_row:
  "\<forall>r\<in>set (x # ys). bin r \<noteq> None \<Longrightarrow> sorted (map (\<lambda>r. the (bin r)) ys) \<Longrightarrow>
     sorted (map (\<lambda>r. the (bin r)) (insert_row x ys))"
proof (induction ys)
  case Nil
  then show ?case by simp
next
  case (Cons y ys)
  then obtain a b where ab: "bin x = Some a" "bin y = Some b" by auto
  show ?case
  proof (cases "bin_before y x")
    case True
    with ab have "b < a" by (simp add: bin_before_def)
    with Cons ab True show ?thesis by (auto simp: set_insert_row)
  next
    case False
    with ab have "a \<le> b" by (simp add: bin_before_def)
    with Cons.prems ab False show ?thesis by auto
  qed
qed

lemma sorted_sort_rows:
  "\<forall>r\<in>set xs. bin r \<noteq> None \<Longrightarrow> sorted (map (\<lambda>r. the (bin r)) (sort_rows xs))"
proof (induction xs)
  case Nil
  then show ?case by (simp add: sort_rows_def)
next
  case (Cons x xs)
  from Cons.prems have "\<forall>r\<in>set xs. bin r \<noteq> None" by simp
  from Cons.IH[OF this] have "sorted (map (\<lambda>r. the (bin r)) (sort_rows xs))" .
  moreover have "\<forall>r\<in>set (x # sort_rows xs). bin r \<noteq> None"
    using Cons.prems by (simp add: set_sort_rows)
  ultimately have "sorted (map (\<lambda>r. the (bin r)) (insert_row x (sort_rows xs)))"
    by (rule sorted_insert_row[rotated])
  then show ?case by (simp add: sort_rows_def)
qed

lemma plain_row_key:
  assumes "plain_record c"
  shows "row_key c = (if stamp c = 0 then None else Some (Some (bin_start (stamp c))))"
proof -
  from assms obtain t where t: "c_timestamp c = Number t" "0 \<le> t" "t < 1000000000000"
    by (auto simp: plain_record_def split: tsval.splits)
  show ?thesis
  proof (cases "t = 0")
    case True
    with t show ?thesis by (simp add: row_key_def toDateFromAny_def falsy_def stamp_def)
  next
    case False
    have "\<bar>t * 1000\<bar> \<le> 8640000000000000" using t by simp
    then have "new_Date (to_millis t) = Date \<lfloor>t * 1000\<rfloor>"
      using t by (simp add: new_Date_def to_millis_def)
    with False t bin_of_seconds[OF t(2)] show ?thesis
      by (simp add: row_key_def toDateFromAny_def falsy_def stamp_def bin_of_def bin_start_def)
  qed
qed

lemma keyed_plain:
  assumes "\<forall>c\<in>set R. plain_record c"
  shows "keyed R k = length (filter (\<lambda>c. stamp c \<noteq> 0 \<and> k = Some (bin_start (stamp c))) R)"
proof -
  have "filter (\<lambda>c. row_key c = Some k) R =
        filter (\<lambda>c. stamp c \<noteq> 0 \<and> k = Some (bin_start (stamp c))) R"
    using assms by (intro filter_cong refl) (auto simp: plain_row_key)
  then show ?thesis by (simp add: keyed_def)
qed

lemma bin_start_mod: "bin_start t mod 30 = 0"
  by (simp add: bin_start_def)

lemma bin_start_iff:
  "b mod 30 = 0 \<Longrightarrow> (bin_start t = b) = (of_int b \<le> t \<and> t < of_int b + 30)"
  using in_bin_iff[of t b] by (simp add: bin_start_def)

lemma in_bin_filter:
  "b mod 30 = 0 \<Longrightarrow> (Some b = Some (bin_start t)) = (of_int b \<le> t \<and> t < of_int b + 30)"
  using bin_start_iff[of b t] by auto

text \<open>
  Claim C6, as amended. For every record set whose records are plain (a recognised
  sentiment, a timestamp that is a number of seconds from zero up to \<open>10\<^sup>1\<^sup>2\<close>): the bins
  emitted are exactly the bins \<^verbatim>\<open>floor(timestamp / 30) * 30\<close> of the records with a
  timestamp other than zero, they come in strictly ascending order, the records with
  timestamp zero are dropped, and the three counts of each emitted bin sum to the number
  of records with a timestamp other than zero in the thirty seconds from the bin start.
\<close>

theorem timeline_bins:
  assumes "\<forall>c\<in>set R. plain_record c"
  shows "sorted_wrt (<) (map (\<lambda>r. the (bin r)) (processTimelineData R)) \<and>
         bin ` set (processTimelineData R) =
           (\<lambda>c. Some (bin_start (stamp c))) ` {c \<in> set R. stamp c \<noteq> 0} \<and>
         (\<forall>row\<in>set (processTimelineData R). \<exists>b. bin row = Some b \<and>
            row_total row =
              length (filter (\<lambda>c. stamp c \<noteq> 0 \<and> of_int b \<le> stamp c \<and> stamp c < of_int b + 30) R))"
proof -
  define m where "m = foldl timeline_step [] R"
  have rows: "processTimelineData R = sort_rows (map snd m)"
    by (simp add: processTimelineData_def m_def)
  have sen: "\<forall>c\<in>set R. c_sentiment c \<in> sentiments"
    using assms by (simp add: plain_record_def)
  have "timeline_inv [] []" by (simp add: timeline_inv_def keyed_def)
  from timeline_fold_inv[OF this sen] have inv: "timeline_inv m R" by (simp add: m_def)
  then have d: "distinct (map fst m)"
    and z: "\<And>k. (map_of m k = None) = (keyed R k = 0)"
    and v: "\<And>k r. map_of m k = Some r \<Longrightarrow> bin r = k \<and> row_total r = keyed R k"
    by (auto simp: timeline_inv_def)
  have pair: "\<And>k r. (k, r) \<in> set m \<Longrightarrow> bin r = k \<and> row_total r = keyed R k \<and> keyed R k \<noteq> 0"
  proof -
    fix k r assume "(k, r) \<in> set m"
    with d have s: "map_of m k = Some r" by simp
    with z[of k] v[OF s] show "bin r = k \<and> row_total r = keyed R k \<and> keyed R k \<noteq> 0" by simp
  qed
  have bins: "map bin (map snd m) = map fst m"
    using pair by (auto simp: list_eq_iff_nth_eq)
  have key_some: "\<And>k. keyed R k \<noteq> 0 \<Longrightarrow> \<exists>c\<in>set R. stamp c \<noteq> 0 \<and> k = Some (bin_start (stamp c))"
  proof -
    fix k assume "keyed R k \<noteq> 0"
    then have "filter (\<lambda>c. stamp c \<noteq> 0 \<and> k = Some (bin_start (stamp c))) R \<noteq> []"
      by (simp add: keyed_plain[OF assms])
    then show "\<exists>c\<in>set R. stamp c \<noteq> 0 \<and> k = Some (bin_start (stamp c))"
      by (auto simp: filter_empty_conv)
  qed
  have all_some: "\<forall>r\<in>set (map snd m). bin r \<noteq> None"
  proof
    fix r assume "r \<in> set (map snd m)"
    then obtain k where kr: "(k, r) \<in> set m" by auto
    from pair[OF kr] key_some[of k] show "bin r \<noteq> None" by auto
  qed
  have srt: "sorted (map (\<lambda>r. the (bin r)) (processTimelineData R))"
    unfolding rows by (rule sorted_sort_rows[OF all_some])
  have dm: "distinct (map bin (map snd m))" unfolding bins by (rule d)
  have dist: "distinct (map bin (processTimelineData R))"
    unfolding rows using dm by (simp only: distinct_sort_rows)
  have inj: "inj_on the (set (map bin (processTimelineData R)))"
  proof (rule inj_onI)
    fix x y
    assume x: "x \<in> set (map bin (processTimelineData R))"
      and y: "y \<in> set (map bin (processTimelineData R))" and e: "the x = the y"
    from x all_some have "x \<noteq> None" unfolding rows by (auto simp: set_sort_rows)
    moreover from y all_some have "y \<noteq> None" unfolding rows by (auto simp: set_sort_rows)
    ultimately show "x = y" using e by auto
  qed
  from dist inj have "distinct (map the (map bin (processTimelineData R)))"
    by (simp only: distinct_map)
  then have dthe: "distinct (map (\<lambda>r. the (bin r)) (processTimelineData R))"
    by (simp add: comp_def)
  from srt dthe have A: "sorted_wrt (<) (map (\<lambda>r. the (bin r)) (processTimelineData R))"
    by (simp add: strict_sorted_iff)
  have "bin ` set (processTimelineData R) = fst ` set m"
    using bins unfolding rows set_sort_rows by (metis image_set)
  also have "\<dots> = {k. keyed R k \<noteq> 0}"
  proof (intro set_eqI)
    fix k
    have "(k \<in> fst ` set m) = (map_of m k \<noteq> None)" by (simp add: map_of_eq_None_iff)
    also have "\<dots> = (keyed R k \<noteq> 0)" using z[of k] by simp
    finally show "(k \<in> fst ` set m) = (k \<in> {k. keyed R k \<noteq> 0})" by simp
  qed
  also have "\<dots> = (\<lambda>c. Some (bin_start (stamp c))) ` {c \<in> set R. stamp c \<noteq> 0}"
  proof (intro set_eqI iffI)
    fix k assume "k \<in> {k. keyed R k \<noteq> 0}"
    with key_some[of k] show "k \<in> (\<lambda>c. Some (bin_start (stamp c))) ` {c \<in> set R. stamp c \<noteq> 0}"
      by auto
  next
    fix k assume "k \<in> (\<lambda>c. Some (bin_start (stamp c))) ` {c \<in> set R. stamp c \<noteq> 0}"
    then obtain c where "c \<in> set R" "stamp c \<noteq> 0" "k = Some (bin_start (stamp c))" by auto
    then have "filter (\<lambda>c. stamp c \<noteq> 0 \<and> k = Some (bin_start (stamp c))) R \<noteq> []"
      by (auto simp: filter_empty_conv)
    then show "k \<in> {k. keyed R k \<noteq> 0}" by (simp add: keyed_plain[OF assms])
  qed
  finally have B: "bin ` set (processTimelineData R) =
           (\<lambda>c. Some (bin_start (stamp c))) ` {c \<in> set R. stamp c \<noteq> 0}" .
  have C: "\<forall>row\<in>set (processTimelineData R). \<exists>b. bin row = Some b \<and>
            row_total row =
              length (filter (\<lambda>c. stamp c \<noteq> 0 \<and> of_int b \<le> stamp c \<and> stamp c < of_int b + 30) R)"
  proof
    fix row assume "row \<in> set (processTimelineData R)"
    then have "row \<in> snd ` set m" unfolding rows set_sort_rows by simp
    then obtain k where kr: "(k, row) \<in> set m" by auto
    from pair[OF kr] have p: "bin row = k" "row_total row = keyed R k" "keyed R k \<noteq> 0" by simp_all
    from key_some[OF p(3)] obtain c0 where c0: "k = Some (bin_start (stamp c0))" by auto
    define b where "b = bin_start (stamp c0)"
    have bm: "b mod 30 = 0" by (simp add: b_def bin_start_mod)
    have kb: "k = Some b" using c0 by (simp add: b_def)
    have "filter (\<lambda>c. stamp c \<noteq> 0 \<and> k = Some (bin_start (stamp c))) R =
          filter (\<lambda>c. stamp c \<noteq> 0 \<and> of_int b \<le> stamp c \<and> stamp c < of_int b + 30) R"
      unfolding kb by (intro filter_cong refl) (simp only: in_bin_filter[OF bm])
    with p kb keyed_plain[OF assms, of k] show "\<exists>b. bin row = Some b \<and>
            row_total row =
              length (filter (\<lambda>c. stamp c \<noteq> 0 \<and> of_int b \<le> stamp c \<and> stamp c < of_int b + 30) R)"
      by (intro exI[of _ b]) simp
  qed
  from A B C show ?thesis by blast
qed

theorem timeline_bins_witness:
  "list_all plain_record four_positive \<and>
   processTimelineData four_positive =
     [\<lparr>bin = Some 0, positive = 1, neutral = 0, negative = 0\<rparr>,
      \<lparr>bin = Some 30, positive = 1, neutral = 0, negative = 0\<rparr>,
      \<lparr>bin = Some 60, positive = 1, neutral = 0, negative = 1\<rparr>,
      \<lparr>bin = Some 90, positive = 1, neutral = 0, negative = 0\<rparr>] \<and>
   sorted_wrt (<) (map (\<lambda>r. the (bin r)) (processTimelineData four_positive)) \<and>
   bin ` set (processTimelineData four_positive) =
     (\<lambda>c. Some (bin_start (stamp c))) ` {c \<in> set four_positive. stamp c \<noteq> 0}"
proof -
  have h: "\<forall>c\<in>set four_positive. plain_record c"
    by (simp add: four_positive_def plain_comment_def plain_record_def sentiments_def)
  have e: "processTimelineData four_positive =
     [\<lparr>bin = Some 0, positive = 1, neutral = 0, negative = 0\<rparr>,
      \<lparr>bin = Some 30, positive = 1, neutral = 0, negative = 0\<rparr>,
      \<lparr>bin = Some 60, positive = 1, neutral = 0, negative = 1\<rparr>,
      \<lparr>bin = Some 90, positive = 1, neutral = 0, negative = 0\<rparr>]"
    by code_simp
  from timeline_bins[OF h] h e show ?thesis by (simp only: list_all_iff)
qed

text \<open>
  Claim C6 as it is written fails. A record with a sentiment that is not recognised opens
  its bin and is not counted; a record with timestamp zero is dropped though zero lies
  in the first bin; a timestamp of \<open>2 \<times> 10\<^sup>1\<^sup>2\<close> is read as milliseconds, so its bin is
  not \<^verbatim>\<open>floor(timestamp / 30) * 30\<close>.
\<close>

theorem timeline_bins_counterexample:
  "processTimelineData odd_records =
     [\<lparr>bin = Some 0, positive = 0, neutral = 0, negative = 0\<rparr>,
      \<lparr>bin = Some 1999999980, positive = 1, neutral = 0, negative = 0\<rparr>] \<and>
   \<lfloor>(2000000000000::rat) / 30\<rfloor> * 30 = 1999999999980 \<and>
   length (filter (\<lambda>c. 0 \<le> stamp c \<and> stamp c < 30) odd_records) = 2"
  by code_simp

lemma falsy_timestamp_dropped:
  "falsy (p_timestamp p) \<Longrightarrow> processTimelineData (updateCommentsData [p] []) = []"
  by (simp add: processTimelineData_def updateCommentsData_def normalise_def timeline_step_def
        toDateFromAny_def falsy_def sort_rows_def)

text \<open>
  Claim C9 at a timestamp that cannot be parsed: normalisation keeps the value,
  \<^verbatim>\<open>toDateFromAny\<close> returns an invalid date, which is not \<^verbatim>\<open>null\<close>, and the record is
  counted in a bin whose start is NaN instead of being dropped.
\<close>

theorem unparsable_timestamp_kept:
  "c_timestamp (normalise unparsable_prediction) = Unparsable \<and>
   toDateFromAny Unparsable = Some InvalidDate \<and>
   processTimelineData (updateCommentsData [unparsable_prediction] []) =
     [\<lparr>bin = None, positive = 1, neutral = 0, negative = 0\<rparr>]"
  by code_simp

section \<open>Claims about the token ranking\<close>

subsection \<open>Rounding keeps integer bounds\<close>

lemma pow2_pos: "0 < pow2 k"
  by (simp add: pow2_def)

lemma pow2_nat: "0 \<le> k \<Longrightarrow> pow2 k = 2 ^ nat k"
  by (simp add: pow2_def)

lemma pow2_neg: "k < 0 \<Longrightarrow> pow2 k = 1 / 2 ^ nat (- k)"
  by (simp add: pow2_def)

lemma pow2_ge_one: "0 \<le> k \<Longrightarrow> 1 \<le> pow2 k"
  by (simp add: pow2_def)

lemma pow2_Suc: "pow2 (k + 1) = 2 * pow2 k"
proof (cases "0 \<le> k")
  case True
  then show ?thesis by (simp add: pow2_def nat_add_distrib)
next
  case False
  then have "nat (- k) = Suc (nat (- (k + 1)))" by simp
  with False show ?thesis by (simp add: pow2_def)
qed

lemma pow2_diff_nat:
  assumes "0 < a" "0 < b"
  shows "pow2 (a - 1 - b) = 2 ^ nat (a - 1) / 2 ^ nat b"
proof (cases "0 \<le> a - 1 - b")
  case True
  then have "nat (a - 1) = nat (a - 1 - b) + nat b" using assms by simp
  then have "(2::rat) ^ nat (a - 1) = 2 ^ nat (a - 1 - b) * 2 ^ nat b"
    by (simp only: power_add)
  with True show ?thesis by (simp add: pow2_def)
next
  case False
  then have "nat b = nat (- (a - 1 - b)) + nat (a - 1)" using assms by simp
  then have "(2::rat) ^ nat b = 2 ^ nat (- (a - 1 - b)) * 2 ^ nat (a - 1)"
    by (simp only: power_add)
  with False show ?thesis by (simp add: pow2_def)
qed

lemma expo_lower:
  assumes "0 < x"
  shows "pow2 (expo x + 52) \<le> x"
proof -
  obtain a b where q: "quotient_of x = (a, b)" by (cases "quotient_of x")
  have b: "0 < b" using q by (rule quotient_of_denom_pos)
  have x: "x = of_int a / of_int b" using q by (rule quotient_of_div)
  have a: "0 < a" using assms b x by (simp add: zero_less_divide_iff)
  define k where "k = bitlen a - bitlen b"
  have e: "expo x = (if x < pow2 k then k - 53 else k - 52)"
    by (simp add: expo_def q k_def Let_def)
  show ?thesis
  proof (cases "x < pow2 k")
    case False
    with e show ?thesis by simp
  next
    case True
    from bitlen_bounds[OF a] have la: "2 ^ nat (bitlen a - 1) \<le> a" by simp
    from bitlen_bounds[OF b] have lb: "b < 2 ^ nat (bitlen b)" by simp
    have pa: "0 < bitlen a" using a by (simp add: bitlen_alt_def)
    have pb: "0 < bitlen b" using b by (simp add: bitlen_alt_def)
    have la': "(2::rat) ^ nat (bitlen a - 1) \<le> of_int a"
    proof -
      have "(of_int (2 ^ nat (bitlen a - 1)) :: rat) \<le> of_int a"
        using la by (simp only: of_int_le_iff)
      then show ?thesis by simp
    qed
    have lb': "(of_int b :: rat) \<le> 2 ^ nat (bitlen b)"
    proof -
      have "(of_int b :: rat) < of_int (2 ^ nat (bitlen b))"
        using lb by (simp only: of_int_less_iff)
      then show ?thesis by simp
    qed
    have b': "(0::rat) < of_int b" using b by simp
    have "pow2 (k - 1) = 2 ^ nat (bitlen a - 1) / 2 ^ nat (bitlen b)"
      using pow2_diff_nat[OF pa pb] by (simp add: k_def algebra_simps)
    also have "\<dots> \<le> of_int a / 2 ^ nat (bitlen b)"
      using la' by (simp add: divide_right_mono)
    also have "\<dots> \<le> of_int a / of_int b"
      using lb' b' a by (simp add: frac_le)
    finally have "pow2 (k - 1) \<le> x" using x by simp
    with e True show ?thesis by simp
  qed
qed

lemma rne_le: "y \<le> of_int z \<Longrightarrow> rne y \<le> z"
proof -
  assume h: "y \<le> of_int z"
  then have m: "\<lfloor>y\<rfloor> \<le> z" by (simp add: floor_le_iff)
  show ?thesis
  proof (cases "\<lfloor>y\<rfloor> = z")
    case True
    have "of_int \<lfloor>y\<rfloor> \<le> y" by simp
    with h True have "y = of_int z" by simp
    then show ?thesis by (simp add: rne_def)
  next
    case False
    with m have "\<lfloor>y\<rfloor> + 1 \<le> z" by simp
    then show ?thesis by (auto simp: rne_def Let_def)
  qed
qed

lemma rne_ge: "of_int z \<le> y \<Longrightarrow> z \<le> rne y"
proof -
  assume "of_int z \<le> y"
  then have "z \<le> \<lfloor>y\<rfloor>" by (simp add: le_floor_iff)
  then show ?thesis by (auto simp: rne_def Let_def)
qed

lemma expo_neg:
  assumes "0 < x" "x < 2 ^ 52"
  shows "expo x < 0"
proof (rule ccontr)
  assume "\<not> expo x < 0"
  then have n: "0 \<le> expo x" by simp
  then have "pow2 (expo x + 52) = 2 ^ nat (expo x + 52)" by (simp add: pow2_def)
  also have "nat (expo x + 52) = nat (expo x) + 52" using n by simp
  finally have "pow2 (expo x + 52) = 2 ^ nat (expo x) * 2 ^ 52" by (simp only: power_add)
  moreover have "(1::rat) \<le> 2 ^ nat (expo x)" by simp
  ultimately have "(2::rat) ^ 52 \<le> pow2 (expo x + 52)" by simp
  with expo_lower[OF assms(1)] assms(2) show False by simp
qed

lemma round_double_pos:
  assumes "0 < x" "x < 2 ^ 52"
  shows "round_double x = of_int (rne (x * 2 ^ nat (- expo x))) / 2 ^ nat (- expo x)"
  using assms expo_neg[OF assms] by (simp add: round_double_def pow2_neg)

lemma round_double_le:
  assumes "0 \<le> x" "x \<le> of_int c" "c < 2 ^ 52"
  shows "round_double x \<le> of_int c"
proof (cases "x = 0")
  case True
  with assms show ?thesis by (simp add: round_double_def)
next
  case False
  with assms have p: "0 < x" by simp
  have "(of_int c :: rat) < of_int (2 ^ 52)" using assms(3) by (simp only: of_int_less_iff)
  with assms(2) have lt: "x < 2 ^ 52" by simp
  define j where "j = nat (- expo x)"
  have "x * 2 ^ j \<le> of_int c * 2 ^ j" using assms(2) by simp
  also have "\<dots> = of_int (c * 2 ^ j)" by simp
  finally have "rne (x * 2 ^ j) \<le> c * 2 ^ j" by (rule rne_le)
  then have "(of_int (rne (x * 2 ^ j)) :: rat) \<le> of_int (c * 2 ^ j)" by (simp only: of_int_le_iff)
  then have "(of_int (rne (x * 2 ^ j)) :: rat) / 2 ^ j \<le> of_int c"
    by (simp add: divide_le_eq)
  then show ?thesis using round_double_pos[OF p lt] by (simp add: j_def)
qed

lemma round_double_ge:
  assumes "of_int c \<le> x" "0 < x" "x < 2 ^ 52"
  shows "of_int c \<le> round_double x"
proof -
  define j where "j = nat (- expo x)"
  have "(of_int (c * 2 ^ j) :: rat) = of_int c * 2 ^ j" by simp
  also have "\<dots> \<le> x * 2 ^ j" using assms(1) by simp
  finally have "c * 2 ^ j \<le> rne (x * 2 ^ j)" by (rule rne_ge)
  then have "(of_int (c * 2 ^ j) :: rat) \<le> of_int (rne (x * 2 ^ j))" by (simp only: of_int_le_iff)
  then have "of_int c \<le> (of_int (rne (x * 2 ^ j)) :: rat) / 2 ^ j"
    by (simp add: le_divide_eq)
  then show ?thesis using round_double_pos[OF assms(2,3)] by (simp add: j_def)
qed

lemma interpolated_bounds:
  assumes "mn \<le> n" "n \<le> mx"
  shows "1 \<le> interpolated mx mn n \<and> interpolated mx mn n \<le> 5"
proof (cases "mx = mn")
  case True
  then show ?thesis by (simp add: interpolated_def)
next
  case False
  with assms have lt: "mn < mx" by simp
  then have d: "(0::rat) < of_nat mx - of_nat mn" by simp
  have a: "(0::rat) \<le> of_nat n - of_nat mn" using assms by simp
  have b: "(of_nat n :: rat) - of_nat mn \<le> of_nat mx - of_nat mn" using assms by simp
  define q :: rat where "q = (of_nat n - of_nat mn) / (of_nat mx - of_nat mn)"
  from a d have q0: "0 \<le> q" by (simp add: q_def)
  from b d have q1: "q \<le> 1" by (simp add: q_def pos_divide_le_eq)
  define r where "r = round_double q"
  have r0: "0 \<le> r" using round_double_ge[of 0 q] q0 q1
    by (cases "q = 0") (simp_all add: r_def round_double_def)
  have r1: "r \<le> 1" using round_double_le[of q 1] q0 q1 by (simp add: r_def)
  define m where "m = round_double (r * 4)"
  have m0: "0 \<le> m" using round_double_ge[of 0 "r * 4"] r0 r1
    by (cases "r = 0") (simp_all add: m_def round_double_def)
  have m4: "m \<le> 4" using round_double_le[of "r * 4" 4] r0 r1 by (simp add: m_def)
  have s1: "1 \<le> round_double (1 + m)" using round_double_ge[of 1 "1 + m"] m0 m4 by simp
  have s5: "round_double (1 + m) \<le> 5" using round_double_le[of "1 + m" 5] m0 m4 by simp
  have "interpolated mx mn n = round_double (1 + m)"
    using False by (simp add: interpolated_def fadd_def fmul_def fdiv_def m_def r_def q_def)
  with s1 s5 show ?thesis by simp
qed

subsection \<open>The tally and its order\<close>

lemma tally_step_keep:
  assumes "keep_word w" and "distinct (map fst acc)"
  shows "distinct (map fst (tally_step acc w))"
    and "map_of (tally_step acc w) = (map_of acc)(w \<mapsto> (case map_of acc w of None \<Rightarrow> 1 | Some n \<Rightarrow> n + 1))"
proof -
  show "distinct (map fst (tally_step acc w))"
  proof (cases "map_of acc w")
    case None
    then have "w \<notin> fst ` set acc" by (simp add: map_of_eq_None_iff)
    with assms None show ?thesis by (simp add: tally_step_def)
  next
    case (Some n)
    with assms show ?thesis by (simp add: tally_step_def modify_fst)
  qed
  show "map_of (tally_step acc w) = (map_of acc)(w \<mapsto> (case map_of acc w of None \<Rightarrow> 1 | Some n \<Rightarrow> n + 1))"
  proof (cases "map_of acc w")
    case None
    with assms show ?thesis
      by (auto simp: tally_step_def map_of_append map_add_def fun_eq_iff
            split: option.splits)
  next
    case (Some n)
    with assms show ?thesis
      by (auto simp: tally_step_def modify_map_of fun_eq_iff)
  qed
qed

lemma tally_step_skip: "\<not> keep_word w \<Longrightarrow> tally_step acc w = acc"
  by (simp add: tally_step_def)

lemma tally_fold:
  "distinct (map fst acc) \<Longrightarrow>
     distinct (map fst (foldl tally_step acc ws)) \<and>
     (\<forall>w. map_of (foldl tally_step acc ws) w =
            add_count (map_of acc w) (count_list (filter keep_word ws) w))"
proof (induction ws arbitrary: acc)
  case Nil
  then show ?case by (simp add: add_count_def)
next
  case (Cons x ws)
  show ?case
  proof (cases "keep_word x")
    case False
    with Cons show ?thesis by (simp add: tally_step_skip)
  next
    case True
    note k = tally_step_keep[OF True Cons.prems]
    from Cons.IH[OF k(1)] k(2) True show ?thesis
      by (auto simp: add_count_def split: option.splits)
  qed
qed

lemma tally_mem:
  "((w, n) \<in> set (foldl tally_step [] ws)) =
     (w \<in> set (filter keep_word ws) \<and> n = count_list (filter keep_word ws) w)"
proof -
  let ?T = "foldl tally_step [] ws"
  have d: "distinct (map fst ?T)" using tally_fold[of "[]" ws] by simp
  have m: "map_of ?T w = (if count_list (filter keep_word ws) w = 0 then None
                          else Some (count_list (filter keep_word ws) w))"
    using tally_fold[of "[]" ws] by (simp add: add_count_def)
  have "((w, n) \<in> set ?T) = (map_of ?T w = Some n)" using d by simp
  also have "\<dots> = (count_list (filter keep_word ws) w \<noteq> 0 \<and> n = count_list (filter keep_word ws) w)"
    by (auto simp: m)
  also have "\<dots> = (w \<in> set (filter keep_word ws) \<and> n = count_list (filter keep_word ws) w)"
    by (simp add: count_list_0_iff)
  finally show ?thesis .
qed

lemma tally_length: "length (foldl tally_step [] ws) = card (set (filter keep_word ws))"
proof -
  let ?T = "foldl tally_step [] ws"
  have d: "distinct (map fst ?T)" using tally_fold[of "[]" ws] by simp
  have "set (map fst ?T) = set (filter keep_word ws)"
  proof (intro set_eqI iffI)
    fix w assume "w \<in> set (map fst ?T)"
    then obtain n where "(w, n) \<in> set ?T" by auto
    then show "w \<in> set (filter keep_word ws)" by (simp only: tally_mem)
  next
    fix w assume "w \<in> set (filter keep_word ws)"
    then have "(w, count_list (filter keep_word ws) w) \<in> set ?T" by (simp only: tally_mem)
    then show "w \<in> set (map fst ?T)" by force
  qed
  with distinct_card[OF d] show ?thesis by simp
qed

lemma lift_modify:
  "modify w (\<lambda>v. next_count False w (Some v)) (numbered m) =
     numbered (modify w (\<lambda>n. n + 1) m)"
  by (induction m) (auto simp: modify_def next_count_def numbered_def)

lemma map_of_lift: "map_of (numbered m) w = map_option Num (map_of m w)"
  by (induction m) (auto simp: numbered_def)

lemma numbered_snoc: "numbered (m @ [(w, n)]) = numbered m @ [(w, Num n)]"
  by (simp add: numbered_def)

lemma set_numbered: "set (numbered T) = apsnd Num ` set T"
  by (simp add: numbered_def)

lemma word_step_skip: "\<not> keep_word w \<Longrightarrow> word_step acc w = acc"
  by (auto simp: word_step_def keep_word_def)

lemma word_step_lift:
  assumes "keep_word w" "\<not> inherited w"
  shows "word_step (numbered m) w = numbered (tally_step m w)"
proof -
  from assms(2) have p: "w \<noteq> units ''__proto__''" and f: "w \<notin> set (map units function_names)"
    by (simp_all add: inherited_def)
  from assms(1) have k: "length w > 2 \<and> w \<notin> set stopWords" by (simp add: keep_word_def)
  show ?thesis
  proof (cases "map_of m w")
    case None
    then have h: "map_of (numbered m) w = None" by (simp add: map_of_lift)
    have "word_step (numbered m) w =
            numbered m @ [(w, next_count (w \<in> set (map units function_names)) w None)]"
      unfolding word_step_def using k p by (simp only: h if_True if_False option.case simp_thms)
    also have "\<dots> = numbered (m @ [(w, 1)])"
      using f by (simp add: next_count_def numbered_snoc)
    also have "m @ [(w, 1)] = tally_step m w"
      unfolding tally_step_def using assms(1) by (simp only: None if_True option.case)
    finally show ?thesis .
  next
    case (Some n)
    then have h: "map_of (numbered m) w = Some (Num n)" by (simp add: map_of_lift)
    have "word_step (numbered m) w =
            modify w (\<lambda>v. next_count False w (Some v)) (numbered m)"
      unfolding word_step_def using k p by (simp only: h if_True if_False option.case simp_thms)
    also have "\<dots> = numbered (modify w (\<lambda>n. n + 1) m)" by (rule lift_modify)
    also have "modify w (\<lambda>n. n + 1) m = tally_step m w"
      unfolding tally_step_def using assms(1) by (simp only: Some if_True option.case)
    finally show ?thesis .
  qed
qed

lemma word_fold_lift:
  "\<forall>w\<in>set (filter keep_word ws). \<not> inherited w \<Longrightarrow>
     foldl word_step (numbered m) ws = numbered (foldl tally_step m ws)"
proof (induction ws arbitrary: m)
  case Nil
  then show ?case by simp
next
  case (Cons x ws)
  show ?case
  proof (cases "keep_word x")
    case False
    with Cons show ?thesis by (simp add: word_step_skip tally_step_skip)
  next
    case True
    with Cons.prems have "\<not> inherited x" by simp
    from word_step_lift[OF True this, of m] Cons.IH[of "tally_step m x"] Cons.prems
    show ?thesis by simp
  qed
qed

lemma set_entries: "set (entries m) = set m"
  by (auto simp: entries_def)

lemma length_entries: "length (entries m) = length m"
  by (simp add: entries_def sum_length_filter_compl)

lemma insert_entry_insort:
  "\<forall>p\<in>set (x # ys). \<exists>n. snd p = Num n \<Longrightarrow>
     insert_entry x ys = insort_key (\<lambda>p. - int (num_of (snd p))) x ys"
proof (induction ys)
  case Nil
  then show ?case by simp
next
  case (Cons y ys)
  from Cons.prems obtain a b where a: "snd x = Num a" and b: "snd y = Num b" by auto
  from Cons.prems have "\<forall>p\<in>set (x # ys). \<exists>n. snd p = Num n" by simp
  from Cons.IH[OF this] a b show ?case
    by (auto simp: count_less_def num_of_def)
qed

lemma sort_entries_sort:
  "\<forall>p\<in>set xs. \<exists>n. snd p = Num n \<Longrightarrow>
     sort_entries xs = sort_key (\<lambda>p. - int (num_of (snd p))) xs"
proof (induction xs)
  case Nil
  then show ?case by (simp add: sort_entries_def)
next
  case (Cons x xs)
  then have IH: "sort_entries xs = sort_key (\<lambda>p. - int (num_of (snd p))) xs" by simp
  have "\<forall>p\<in>set (x # sort_key (\<lambda>p. - int (num_of (snd p))) xs). \<exists>n. snd p = Num n"
    using Cons.prems by simp
  from insert_entry_insort[OF this] IH show ?case
    by (simp add: sort_entries_def)
qed

lemma sorted_hd_le:
  "sorted (map f xs) \<Longrightarrow> x \<in> set xs \<Longrightarrow> (f (hd xs) :: int) \<le> f x"
  by (cases xs) auto

lemma sorted_le_last:
  "sorted (map f xs) \<Longrightarrow> x \<in> set xs \<Longrightarrow> (f x :: int) \<le> f (last xs)"
proof (induction xs)
  case Nil
  then show ?case by simp
next
  case (Cons y ys)
  then show ?case by (cases ys) auto
qed

lemma scale_num: "scale (Num a) (Num b) (Num n) = Some (interpolated a b n)"
  by (simp add: scale_def interpolated_def)

lemma sorted_tally:
  fixes T :: "(jstring \<times> nat) list"
  defines "S \<equiv> sort_entries (entries (numbered T))"
  shows "set S = apsnd Num ` set T" and "length S = length T"
    and "sorted (map (\<lambda>p. - int (num_of (snd p))) S)"
proof -
  have n: "\<forall>p\<in>set (entries (numbered T)). \<exists>n. snd p = Num n"
    by (auto simp: set_entries set_numbered)
  have e: "S = sort_key (\<lambda>p. - int (num_of (snd p))) (entries (numbered T))"
    unfolding S_def by (rule sort_entries_sort[OF n])
  show "set S = apsnd Num ` set T" by (simp add: e set_entries set_numbered)
  show "length S = length T" by (simp add: e length_entries numbered_def)
  show "sorted (map (\<lambda>p. - int (num_of (snd p))) S)" by (simp add: e)
qed

lemma sorted_ends:
  fixes T :: "(jstring \<times> nat) list"
  assumes "T \<noteq> []"
  shows "snd (hd (sort_entries (entries (numbered T)))) = Num (Max (snd ` set T))"
    and "snd (last (sort_entries (entries (numbered T)))) = Num (Min (snd ` set T))"
proof -
  let ?S = "sort_entries (entries (numbered T))"
  let ?f = "\<lambda>p. - int (num_of (snd p))"
  note st = sorted_tally(1)[of T] and ln = sorted_tally(2)[of T] and so = sorted_tally(3)[of T]
  from assms ln have "length ?S \<noteq> 0" by simp
  then have ne: "?S \<noteq> []" by (simp only: length_0_conv not_False_eq_True)
  then have h: "hd ?S \<in> set ?S" and l: "last ?S \<in> set ?S" by simp_all
  from h st obtain hw hn where hd: "hd ?S = (hw, Num hn)" and hT: "(hw, hn) \<in> set T" by auto
  from l st obtain lw ln where la: "last ?S = (lw, Num ln)" and lT: "(lw, ln) \<in> set T" by auto
  have fin: "finite (snd ` set T)" by simp
  have "Max (snd ` set T) = hn"
  proof (rule Max_eqI[OF fin])
    fix n assume "n \<in> snd ` set T"
    then obtain w where "(w, n) \<in> set T" by auto
    then have "(w, Num n) \<in> set ?S" using st by force
    from sorted_hd_le[OF so this] hd show "n \<le> hn" by (simp add: num_of_def)
  next
    from hT show "hn \<in> snd ` set T" by force
  qed
  with hd show "snd (hd ?S) = Num (Max (snd ` set T))" by simp
  have "Min (snd ` set T) = ln"
  proof (rule Min_eqI[OF fin])
    fix n assume "n \<in> snd ` set T"
    then obtain w where "(w, n) \<in> set T" by auto
    then have "(w, Num n) \<in> set ?S" using st by force
    from sorted_le_last[OF so this] la show "ln \<le> n" by (simp add: num_of_def)
  next
    from lT show "ln \<in> snd ` set T" by force
  qed
  with la show "snd (last ?S) = Num (Min (snd ` set T))" by simp
qed

lemma tally_image:
  "snd ` set (foldl tally_step [] ws) =
     count_list (filter keep_word ws) ` set (filter keep_word ws)"
proof (intro set_eqI iffI)
  fix n assume "n \<in> snd ` set (foldl tally_step [] ws)"
  then obtain w where "(w, n) \<in> set (foldl tally_step [] ws)" by auto
  then show "n \<in> count_list (filter keep_word ws) ` set (filter keep_word ws)"
    by (simp only: tally_mem) blast
next
  fix n assume "n \<in> count_list (filter keep_word ws) ` set (filter keep_word ws)"
  then obtain w where "w \<in> set (filter keep_word ws)" "n = count_list (filter keep_word ws) w"
    by auto
  then have "(w, n) \<in> set (foldl tally_step [] ws)" by (simp only: tally_mem)
  then show "n \<in> snd ` set (foldl tally_step [] ws)" by force
qed

lemma freq_bounds:
  assumes "w \<in> set (surviving lower R)"
  shows "min_freq lower R \<le> freq lower R w" and "freq lower R w \<le> max_freq lower R"
  using assms by (simp_all add: min_freq_def max_freq_def)

text \<open>
  Claim C3, as amended. For every lower-casing of the platform and every record list in
  which no surviving word names an inherited property: the projection surfaces thirty
  words, or all the distinct surviving words when they are fewer; every surfaced token is
  a surviving word, and its size is 2 when the largest and the smallest frequency of the
  surviving words are equal, and otherwise \<^verbatim>\<open>1 + (count - min) / (max - min) * 4\<close> for its
  own frequency, in double arithmetic; in both cases the size is a number between 1 and
  5.
\<close>

theorem cloud_sizes:
  assumes "\<forall>w\<in>set (surviving lower R). \<not> inherited w"
  shows "length (processWordCloudData lower rnd R) = min 30 (card (set (surviving lower R))) \<and>
         (\<forall>cw\<in>set (processWordCloudData lower rnd R).
            word cw \<in> set (surviving lower R) \<and>
            size cw =
              Some (if max_freq lower R = min_freq lower R then 2
                    else fadd 1 (fmul (fdiv (of_nat (freq lower R (word cw)) - of_nat (min_freq lower R))
                                            (of_nat (max_freq lower R) - of_nat (min_freq lower R))) 4)) \<and>
            (\<exists>z. size cw = Some z \<and> 1 \<le> z \<and> z \<le> 5))"
proof (cases "all_words lower R")
  case None
  then show ?thesis by (simp add: processWordCloudData_def surviving_def)
next
  case (Some ws)
  define T where "T = foldl tally_step [] ws"
  define S where "S = sort_entries (entries (numbered T))"
  have K: "surviving lower R = filter keep_word ws" by (simp add: surviving_def Some)
  have fr: "freq lower R w = count_list (filter keep_word ws) w" for w by (simp add: freq_def K)
  from assms have clean: "\<forall>w\<in>set (filter keep_word ws). \<not> inherited w" by (simp only: K)
  have "foldl word_step (numbered []) ws = numbered T"
    unfolding T_def by (rule word_fold_lift[OF clean])
  then have W: "foldl word_step [] ws = numbered T" by (simp add: numbered_def)
  have res: "processWordCloudData lower rnd R =
      map (\<lambda>(i, (w, n)).
             \<lparr>word = w,
              size = scale (if S \<noteq> [] then snd (hd S) else Num 1)
                           (if S \<noteq> [] then snd (last S) else Num 1) n,
              rotation = (if rnd i > round_double (7 / 10) then - 90 else 0)\<rparr>)
          (enumerate 0 (take 30 S))"
    unfolding processWordCloudData_def Some option.case W Let_def S_def by (rule refl)
  have lenS: "length S = card (set (surviving lower R))"
    unfolding S_def K using sorted_tally(2)[of T] by (simp add: T_def tally_length)
  have len: "length (processWordCloudData lower rnd R) = min 30 (card (set (surviving lower R)))"
    unfolding res by (simp add: lenS min.commute)
  have mem: "word cw \<in> set (surviving lower R) \<and>
            size cw = Some (interpolated (max_freq lower R) (min_freq lower R) (freq lower R (word cw)))"
    if "cw \<in> set (processWordCloudData lower rnd R)" for cw
  proof -
    from that obtain i w v where m: "(i, (w, v)) \<in> set (enumerate 0 (take 30 S))"
      and cw: "cw = \<lparr>word = w,
                      size = scale (if S \<noteq> [] then snd (hd S) else Num 1)
                                   (if S \<noteq> [] then snd (last S) else Num 1) v,
                      rotation = (if rnd i > round_double (7 / 10) then - 90 else 0)\<rparr>"
      unfolding res by auto
    from m have "snd (i, (w, v)) \<in> set (map snd (enumerate 0 (take 30 S)))"
      by (simp only: set_map) (rule imageI)
    then have "(w, v) \<in> set (take 30 S)" by (simp only: map_snd_enumerate snd_conv)
    then have inS: "(w, v) \<in> set S" by (rule in_set_takeD)
    then have ne: "S \<noteq> []" by auto
    from inS obtain n where v: "v = Num n" and inT: "(w, n) \<in> set T"
      unfolding S_def using sorted_tally(1)[of T] by auto
    from inT have w: "w \<in> set (surviving lower R)" and n: "n = freq lower R w"
      unfolding T_def K by (simp_all only: tally_mem fr)
    from inT have Tne: "T \<noteq> []" by auto
    have im: "snd ` set T = freq lower R ` set (surviving lower R)"
      unfolding T_def by (simp only: tally_image K) (simp add: fr[abs_def])
    have mx: "snd (hd S) = Num (max_freq lower R)"
      unfolding S_def using sorted_ends(1)[OF Tne] by (simp add: max_freq_def im)
    have mn: "snd (last S) = Num (min_freq lower R)"
      unfolding S_def using sorted_ends(2)[OF Tne] by (simp add: min_freq_def im)
    from cw ne mx mn v n have "size cw =
        Some (interpolated (max_freq lower R) (min_freq lower R) (freq lower R w))"
      by (simp add: scale_num)
    moreover from cw have "word cw = w" by simp
    ultimately show ?thesis using w by simp
  qed
  have all: "word cw \<in> set (surviving lower R) \<and>
            size cw =
              Some (if max_freq lower R = min_freq lower R then 2
                    else fadd 1 (fmul (fdiv (of_nat (freq lower R (word cw)) - of_nat (min_freq lower R))
                                            (of_nat (max_freq lower R) - of_nat (min_freq lower R))) 4)) \<and>
            (\<exists>z. size cw = Some z \<and> 1 \<le> z \<and> z \<le> 5)"
    if c: "cw \<in> set (processWordCloudData lower rnd R)" for cw
  proof -
    note m = mem[OF c]
    from m have w: "word cw \<in> set (surviving lower R)" by simp
    from interpolated_bounds[OF freq_bounds[OF w]] m
    have "\<exists>z. size cw = Some z \<and> 1 \<le> z \<and> z \<le> 5" by simp
    with m show ?thesis by (simp add: interpolated_def)
  qed
  from len all show ?thesis by blast
qed

lemma song_words:
  "surviving ascii_lower [song_comment] =
     map units [''great'', ''great'', ''song'', ''great'', ''song'', ''amazing'']"
  by code_simp

lemma song_cloud:
  "processWordCloudData ascii_lower (\<lambda>i. 0) [song_comment] =
     [\<lparr>word = units ''great'', size = Some 5, rotation = 0\<rparr>,
      \<lparr>word = units ''song'', size = Some 3, rotation = 0\<rparr>,
      \<lparr>word = units ''amazing'', size = Some 1, rotation = 0\<rparr>]"
  by code_simp

lemma song_clean: "list_all (\<lambda>w. \<not> inherited w) (surviving ascii_lower [song_comment])"
  by code_simp

lemma song_freqs:
  "freq ascii_lower [song_comment] (units ''song'') = 2"
  "max_freq ascii_lower [song_comment] = 3"
  "min_freq ascii_lower [song_comment] = 1"
  unfolding freq_def max_freq_def min_freq_def song_words by (simp_all add: units_def)

theorem cloud_sizes_witness:
  "list_all (\<lambda>w. \<not> inherited w) (surviving ascii_lower [song_comment]) \<and>
   processWordCloudData ascii_lower (\<lambda>i. 0) [song_comment] =
     [\<lparr>word = units ''great'', size = Some 5, rotation = 0\<rparr>,
      \<lparr>word = units ''song'', size = Some 3, rotation = 0\<rparr>,
      \<lparr>word = units ''amazing'', size = Some 1, rotation = 0\<rparr>] \<and>
   card (set (surviving ascii_lower [song_comment])) = 3 \<and>
   units ''song'' \<in> set (surviving ascii_lower [song_comment]) \<and>
   freq ascii_lower [song_comment] (units ''song'') = 2 \<and>
   max_freq ascii_lower [song_comment] = 3 \<and> min_freq ascii_lower [song_comment] = 1 \<and>
   (3::rat) = fadd 1 (fmul (fdiv (of_nat 2 - of_nat 1) (of_nat 3 - of_nat 1)) 4)"
proof -
  have h: "\<forall>w\<in>set (surviving ascii_lower [song_comment]). \<not> inherited w"
    using song_clean by (simp only: list_all_iff)
  note t = cloud_sizes[OF h, of "\<lambda>i. 0"]
  have m: "\<lparr>word = units ''song'', size = Some 3, rotation = 0\<rparr>
             \<in> set (processWordCloudData ascii_lower (\<lambda>i. 0) [song_comment])"
    by (simp add: song_cloud)
  from t have "length (processWordCloudData ascii_lower (\<lambda>i. 0) [song_comment]) =
                 min 30 (card (set (surviving ascii_lower [song_comment])))"
    by (rule conjunct1)
  then have c: "card (set (surviving ascii_lower [song_comment])) = 3"
    by (simp add: song_cloud)
  from t have "\<forall>cw\<in>set (processWordCloudData ascii_lower (\<lambda>i. 0) [song_comment]).
            word cw \<in> set (surviving ascii_lower [song_comment]) \<and>
            size cw =
              Some (if max_freq ascii_lower [song_comment] = min_freq ascii_lower [song_comment] then 2
                    else fadd 1 (fmul (fdiv (of_nat (freq ascii_lower [song_comment] (word cw))
                                               - of_nat (min_freq ascii_lower [song_comment]))
                                            (of_nat (max_freq ascii_lower [song_comment])
                                               - of_nat (min_freq ascii_lower [song_comment]))) 4)) \<and>
            (\<exists>z. size cw = Some z \<and> 1 \<le> z \<and> z \<le> 5)"
    by (rule conjunct2)
  from bspec[OF this m]
  have w: "units ''song'' \<in> set (surviving ascii_lower [song_comment])"
    and z: "(3::rat) = fadd 1 (fmul (fdiv (of_nat 2 - of_nat 1) (of_nat 3 - of_nat 1)) 4)"
    by (simp_all add: song_freqs)
  from song_clean song_cloud c w song_freqs z show ?thesis by blast
qed

text \<open>
  Claim C3 as it is written fails: with two words of frequency one, both sizes are 2,
  not 1.
\<close>

theorem cloud_sizes_counterexample:
  "processWordCloudData ascii_lower (\<lambda>i. 0) [plain_comment ''positive'' ''weak'' 5] =
     [\<lparr>word = units ''nice'', size = Some 2, rotation = 0\<rparr>,
      \<lparr>word = units ''song'', size = Some 2, rotation = 0\<rparr>]"
  by code_simp

text \<open>
  What the theorem leaves out. A word that names an inherited method is counted by a
  string, and then no size is a number; a word made of digits is listed before the
  others; a record without a text empties the result.
\<close>

lemma inherited_word:
  "processWordCloudData ascii_lower (\<lambda>i. 0) [text_comment ''constructor nice''] =
     [\<lparr>word = units ''constructor'', size = None, rotation = 0\<rparr>,
      \<lparr>word = units ''nice'', size = None, rotation = 0\<rparr>]"
  by code_simp

lemma proto_word:
  "processWordCloudData ascii_lower (\<lambda>i. 0) [text_comment ''__proto__ __proto__ nice''] =
     [\<lparr>word = units ''nice'', size = Some 2, rotation = 0\<rparr>]"
  by code_simp

lemma index_words_first:
  "map word (processWordCloudData ascii_lower (\<lambda>i. 0) [text_comment ''zeta 2024 0100 100'']) =
     map units [''100'', ''2024'', ''zeta'', ''0100'']"
  by code_simp

lemma missing_text:
  "processWordCloudData ascii_lower (\<lambda>i. 0)
     [song_comment, song_comment\<lparr>c_text := None\<rparr>] = []"
  by code_simp

lemma wide_space:
  "map word (processWordCloudData (\<lambda>t. t) (\<lambda>i. 0)
     [song_comment\<lparr>c_text := Some (units ''nice'' @ [160] @ units ''song'' @ [12288] @ units ''now'')\<rparr>]) =
     map units [''nice'', ''song'', ''now'']"
  by code_simp

end
